theory Spec2Isabelle
  imports Main "HOL-Library.Word" "HOL-Library.Monad_Syntax"
begin

unbundle bit_operations_syntax

section \<open>Constants of exfs2.h\<close>

type_synonym byte = "8 word"

definition SEGMENT_SIZE :: nat where "SEGMENT_SIZE = 1024 * 1024"
definition BLOCK_SIZE :: nat where "BLOCK_SIZE = 4096"
definition MAX_FILENAME :: nat where "MAX_FILENAME = 256"
definition INODE_FREE :: int where "INODE_FREE = 0"
definition INODE_FILE :: int where "INODE_FILE = 1"
definition INODE_DIR :: int where "INODE_DIR = 2"
definition ROOT_DIR_INODE :: int where "ROOT_DIR_INODE = 0"
definition MAX_DIRECT_BLOCKS :: nat where "MAX_DIRECT_BLOCKS = 1017"

datatype seg_type = INODE_SEGMENT | DATA_SEGMENT

text \<open>
  The two record sizes of the header on the LP64 target the Makefile builds for:
  \<^verbatim>\<open>inode_t\<close> is int, 4 bytes of padding, an 8-byte size_t, int, 1017 ints and 3 ints,
  rounded up to the 8-byte alignment; \<^verbatim>\<open>dir_entry_t\<close> is char[256] followed by an int.
\<close>

definition sizeof_inode_t :: nat where
  "sizeof_inode_t = ((4 + 4 + 8 + 4 + 4 * MAX_DIRECT_BLOCKS + 3 * 4 + 7) div 8) * 8"

definition sizeof_dir_entry_t :: nat where
  "sizeof_dir_entry_t = MAX_FILENAME + 4"

definition DIR_ENTRIES_PER_BLOCK :: nat where
  "DIR_ENTRIES_PER_BLOCK = BLOCK_SIZE div sizeof_dir_entry_t"

definition num_inodes_per_segment :: nat where
  "num_inodes_per_segment = (SEGMENT_SIZE - BLOCK_SIZE) div sizeof_inode_t"

definition blocks_per_segment :: nat where
  "blocks_per_segment = (SEGMENT_SIZE - BLOCK_SIZE) div BLOCK_SIZE"

definition PTRS_PER_BLOCK :: nat where
  "PTRS_PER_BLOCK = BLOCK_SIZE div 4"

section \<open>On-disk data\<close>

text \<open>
  Fixed-size C arrays are functions from the index; every access whose index is computed
  at run time is guarded where it is made. The C \<^verbatim>\<open>int\<close>s are integers.
\<close>

record inode_t =
  i_type :: int
  i_size :: "64 word"
  num_direct :: int
  direct_blocks :: "nat \<Rightarrow> int"
  indirect_block :: int
  double_indirect_block :: int
  triple_indirect_block :: int

type_synonym bitmap = "nat \<Rightarrow> byte"
type_synonym block = "nat \<Rightarrow> byte"

record inode_seg =
  ibitmap :: bitmap
  inodes :: "nat \<Rightarrow> inode_t"

record data_seg =
  dbitmap :: bitmap
  blocks :: "nat \<Rightarrow> block"

text \<open>
  The host directory: segment file \<open>n\<close> of a kind exists when entry \<open>n\<close> of the list is
  \<open>Some\<close>. \<open>host_free\<close> is the number of segment files the host can still create; creating
  a segment fails when it is 0.
\<close>

record fs =
  inode_segs :: "inode_seg option list"
  data_segs :: "data_seg option list"
  host_free :: nat

definition zero_inode :: inode_t where
  "zero_inode = \<lparr> i_type = 0, i_size = 0, num_direct = 0, direct_blocks = (\<lambda>_. 0),
     indirect_block = 0, double_indirect_block = 0, triple_indirect_block = 0 \<rparr>"

definition zero_block :: block where
  "zero_block = (\<lambda>_. 0)"

definition zero_inode_seg :: inode_seg where
  "zero_inode_seg = \<lparr> ibitmap = (\<lambda>_. 0), inodes = (\<lambda>_. zero_inode) \<rparr>"

definition zero_data_seg :: data_seg where
  "zero_data_seg = \<lparr> dbitmap = (\<lambda>_. 0), blocks = (\<lambda>_. zero_block) \<rparr>"

definition seg_lookup :: "'a option list \<Rightarrow> nat \<Rightarrow> 'a option" where
  "seg_lookup segs n = (if n < length segs then segs ! n else None)"

definition seg_store :: "'a option list \<Rightarrow> nat \<Rightarrow> 'a \<Rightarrow> 'a option list" where
  "seg_store segs n v =
     (if n < length segs then segs[n := Some v]
      else segs @ replicate (n - length segs) None @ [Some v])"

section \<open>Bitmap operations\<close>

function find_free_bit_loop :: "bitmap \<Rightarrow> nat \<Rightarrow> nat \<Rightarrow> int" where
  "find_free_bit_loop bm num_bits i =
     (if i < num_bits then
        (if bm (i div 8) AND push_bit (i mod 8) 1 = 0 then int i
         else find_free_bit_loop bm num_bits (Suc i))
      else - 1)"
  by pat_completeness auto
termination
  by (relation "measure (\<lambda>(bm, num_bits, i). num_bits - i)") auto

definition find_free_bit :: "bitmap \<Rightarrow> nat \<Rightarrow> int" where
  "find_free_bit bm num_bits = find_free_bit_loop bm num_bits 0"

definition set_bit_bm :: "bitmap \<Rightarrow> nat \<Rightarrow> bitmap" where
  "set_bit_bm bm b = bm (b div 8 := bm (b div 8) OR push_bit (b mod 8) 1)"

definition clear_bit_bm :: "bitmap \<Rightarrow> nat \<Rightarrow> bitmap" where
  "clear_bit_bm bm b = bm (b div 8 := bm (b div 8) AND NOT (push_bit (b mod 8) 1))"

definition test_bit_bm :: "bitmap \<Rightarrow> nat \<Rightarrow> bool" where
  "test_bit_bm bm b = (bm (b div 8) AND push_bit (b mod 8) 1 \<noteq> 0)"

section \<open>Segment store\<close>

definition inode_seg_of :: "fs \<Rightarrow> nat \<Rightarrow> inode_seg option" where
  "inode_seg_of s n = seg_lookup (inode_segs s) n"

definition data_seg_of :: "fs \<Rightarrow> nat \<Rightarrow> data_seg option" where
  "data_seg_of s n = seg_lookup (data_segs s) n"

definition put_inode_seg :: "nat \<Rightarrow> inode_seg \<Rightarrow> fs \<Rightarrow> fs" where
  "put_inode_seg n seg s = s \<lparr> inode_segs := seg_store (inode_segs s) n seg \<rparr>"

definition put_data_seg :: "nat \<Rightarrow> data_seg \<Rightarrow> fs \<Rightarrow> fs" where
  "put_data_seg n seg s = s \<lparr> data_segs := seg_store (data_segs s) n seg \<rparr>"

text \<open>
  The operations return \<open>None\<close> where the C program leaves its defined behaviour
  (a negative identifier used as an array index or file offset, an array index past the
  end) and \<open>Some (return value, new state)\<close> otherwise.
\<close>

definition write_inode :: "int \<Rightarrow> inode_t \<Rightarrow> fs \<Rightarrow> (int \<times> fs) option" where
  "write_inode inode_num in_inode s =
     (if inode_num < 0 then None
      else
        let segment_number = nat inode_num div num_inodes_per_segment;
            index_in_segment = nat inode_num mod num_inodes_per_segment
        in case inode_seg_of s segment_number of
             None \<Rightarrow> Some (- 1, s)
           | Some seg \<Rightarrow>
               Some (0, put_inode_seg segment_number
                          (seg \<lparr> inodes := (inodes seg) (index_in_segment := in_inode) \<rparr>) s))"

text \<open>\<open>Some None\<close> is the return value \<open>-1\<close>, \<open>Some (Some i)\<close> the return value 0 with the record read.\<close>

definition read_inode :: "int \<Rightarrow> fs \<Rightarrow> inode_t option option" where
  "read_inode inode_num s =
     (if inode_num < 0 then None
      else
        let segment_number = nat inode_num div num_inodes_per_segment;
            index_in_segment = nat inode_num mod num_inodes_per_segment
        in case inode_seg_of s segment_number of
             None \<Rightarrow> Some None
           | Some seg \<Rightarrow> Some (Some (inodes seg index_in_segment)))"

definition root_inode :: inode_t where
  "root_inode = zero_inode \<lparr> i_type := INODE_DIR, i_size := 0, num_direct := 0,
     indirect_block := - 1, double_indirect_block := - 1, triple_indirect_block := - 1 \<rparr>"

definition create_new_segment :: "nat \<Rightarrow> seg_type \<Rightarrow> fs \<Rightarrow> (int \<times> fs) option" where
  "create_new_segment segment_number segment_type s =
     (if host_free s = 0 then Some (- 1, s)
      else
        let s0 = s \<lparr> host_free := host_free s - 1 \<rparr>;
            s1 = (case segment_type of
                    INODE_SEGMENT \<Rightarrow> put_inode_seg segment_number zero_inode_seg s0
                  | DATA_SEGMENT \<Rightarrow> put_data_seg segment_number zero_data_seg s0)
        in if segment_type = INODE_SEGMENT \<and> segment_number = 0 then
             (case inode_seg_of s1 0 of
                None \<Rightarrow> Some (- 1, s1)
              | Some seg \<Rightarrow>
                  let s2 = put_inode_seg 0 (seg \<lparr> ibitmap := set_bit_bm (\<lambda>_. 0) (nat ROOT_DIR_INODE) \<rparr>) s1
                  in do { (rc, s3) \<leftarrow> write_inode ROOT_DIR_INODE root_inode s2; Some (0, s3) })
           else Some (0, s1))"

definition free_inode :: "int \<Rightarrow> fs \<Rightarrow> (int \<times> fs) option" where
  "free_inode inode_num s =
     (if inode_num < 0 then None
      else
        let segment_number = nat inode_num div num_inodes_per_segment;
            index_in_segment = nat inode_num mod num_inodes_per_segment
        in case inode_seg_of s segment_number of
             None \<Rightarrow> Some (- 1, s)
           | Some seg \<Rightarrow>
               Some (0, put_inode_seg segment_number
                          (seg \<lparr> ibitmap := clear_bit_bm (ibitmap seg) index_in_segment \<rparr>) s))"

text \<open>Lines 104 to 113 of \<^verbatim>\<open>allocate_inode\<close>: open the segment, creating it when absent.\<close>

definition open_or_create_inode_seg :: "nat \<Rightarrow> fs \<Rightarrow> (bool \<times> fs) option" where
  "open_or_create_inode_seg segment_number s =
     (case inode_seg_of s segment_number of
        Some seg \<Rightarrow> Some (True, s)
      | None \<Rightarrow>
          do { (rc, s1) \<leftarrow> create_new_segment segment_number INODE_SEGMENT s;
               if rc \<noteq> 0 then Some (False, s1)
               else (case inode_seg_of s1 segment_number of
                       None \<Rightarrow> Some (False, s1)
                     | Some seg \<Rightarrow> Some (True, s1)) })"

definition open_or_create_data_seg :: "nat \<Rightarrow> fs \<Rightarrow> (bool \<times> fs) option" where
  "open_or_create_data_seg segment_number s =
     (case data_seg_of s segment_number of
        Some seg \<Rightarrow> Some (True, s)
      | None \<Rightarrow>
          do { (rc, s1) \<leftarrow> create_new_segment segment_number DATA_SEGMENT s;
               if rc \<noteq> 0 then Some (False, s1)
               else (case data_seg_of s1 segment_number of
                       None \<Rightarrow> Some (False, s1)
                     | Some seg \<Rightarrow> Some (True, s1)) })"

section \<open>Inode table\<close>

definition INT_MAX :: int where "INT_MAX = 2 ^ 31 - 1"

text \<open>
  The loop of \<^verbatim>\<open>allocate_inode\<close>, from segment \<open>segment_number\<close> on. The global inode
  number is computed in \<^verbatim>\<open>int\<close>; a result past \<open>INT_MAX\<close> is an overflow.
\<close>

function allocate_inode_loop :: "nat \<Rightarrow> fs \<Rightarrow> (int \<times> fs) option" where
  "allocate_inode_loop segment_number s =
     (case open_or_create_inode_seg segment_number s of
        None \<Rightarrow> None
      | Some (False, s1) \<Rightarrow> Some (- 1, s1)
      | Some (True, s1) \<Rightarrow>
          (case inode_seg_of s1 segment_number of
             None \<Rightarrow> Some (- 1, s1)
           | Some seg \<Rightarrow>
               let bm = ibitmap seg;
                   free_inode = find_free_bit bm num_inodes_per_segment
               in if free_inode \<ge> 0 then
                    (if int segment_number * int num_inodes_per_segment + free_inode > INT_MAX
                     then None
                     else Some (int segment_number * int num_inodes_per_segment + free_inode,
                          put_inode_seg segment_number
                            (seg \<lparr> ibitmap := set_bit_bm bm (nat free_inode) \<rparr>) s1))
                  else allocate_inode_loop (Suc segment_number) s1))"
  by pat_completeness auto
termination
proof (relation "measure (\<lambda>(n, s). length (inode_segs s) - n)", goal_cases)
  case 1
  show ?case by simp
next
  case (2 n s x2 x1 s1 seg bm fr)
  have nn: "num_inodes_per_segment = 254"
    by (simp add: num_inodes_per_segment_def SEGMENT_SIZE_def BLOCK_SIZE_def
        sizeof_inode_t_def MAX_DIRECT_BLOCKS_def)
  have look: "\<And>segs k v. seg_lookup (seg_store segs k v) k = Some (v::inode_seg)"
    by (simp add: seg_lookup_def seg_store_def nth_append)
  have f0: "find_free_bit (\<lambda>_. 0) 254 = 0"
    by (simp add: find_free_bit_def)
  have f1: "find_free_bit (set_bit_bm (\<lambda>_. 0) 0) 254 = 1"
    by (simp add: find_free_bit_def set_bit_bm_def)
  have ex: "inode_seg_of s n \<noteq> None"
  proof
    assume a: "inode_seg_of s n = None"
    show False
    proof (cases "n = 0")
      case True
      with 2 a nn f1 look show False
        by (auto simp: open_or_create_inode_seg_def create_new_segment_def inode_seg_of_def
            put_inode_seg_def write_inode_def ROOT_DIR_INODE_def Let_def zero_inode_seg_def
            split: if_splits option.splits)
    next
      case False
      with 2 a nn f0 look show False
        by (auto simp: open_or_create_inode_seg_def create_new_segment_def inode_seg_of_def
            put_inode_seg_def Let_def zero_inode_seg_def
            split: if_splits option.splits)
    qed
  qed
  with 2 have "s1 = s" by (auto simp: open_or_create_inode_seg_def)
  moreover from ex have "n < length (inode_segs s)"
    by (auto simp: inode_seg_of_def seg_lookup_def split: if_splits)
  ultimately show ?case by simp
qed

definition allocate_inode :: "fs \<Rightarrow> (int \<times> fs) option" where
  "allocate_inode s = allocate_inode_loop 0 s"

section \<open>Data block store\<close>

function allocate_block_loop :: "nat \<Rightarrow> fs \<Rightarrow> (int \<times> fs) option" where
  "allocate_block_loop segment_number s =
     (case open_or_create_data_seg segment_number s of
        None \<Rightarrow> None
      | Some (False, s1) \<Rightarrow> Some (- 1, s1)
      | Some (True, s1) \<Rightarrow>
          (case data_seg_of s1 segment_number of
             None \<Rightarrow> Some (- 1, s1)
           | Some seg \<Rightarrow>
               let bm = dbitmap seg;
                   free_block = find_free_bit bm blocks_per_segment
               in if free_block \<ge> 0 then
                    (if int segment_number * int blocks_per_segment + free_block > INT_MAX
                     then None
                     else Some (int segment_number * int blocks_per_segment + free_block,
                          put_data_seg segment_number
                            (seg \<lparr> dbitmap := set_bit_bm bm (nat free_block) \<rparr>) s1))
                  else allocate_block_loop (Suc segment_number) s1))"
  by pat_completeness auto
termination
proof (relation "measure (\<lambda>(n, s). length (data_segs s) - n)", goal_cases)
  case 1
  show ?case by simp
next
  case (2 n s x2 x1 s1 seg bm fr)
  have nn: "blocks_per_segment = 255"
    by (simp add: blocks_per_segment_def SEGMENT_SIZE_def BLOCK_SIZE_def)
  have look: "\<And>segs k v. seg_lookup (seg_store segs k v) k = Some (v::data_seg)"
    by (simp add: seg_lookup_def seg_store_def nth_append)
  have f0: "find_free_bit (\<lambda>_. 0) 255 = 0"
    by (simp add: find_free_bit_def)
  have ex: "data_seg_of s n \<noteq> None"
  proof
    assume a: "data_seg_of s n = None"
    with 2 nn f0 look show False
      by (auto simp: open_or_create_data_seg_def create_new_segment_def data_seg_of_def
          put_data_seg_def Let_def zero_data_seg_def
          split: if_splits option.splits)
  qed
  with 2 have "s1 = s" by (auto simp: open_or_create_data_seg_def)
  moreover from ex have "n < length (data_segs s)"
    by (auto simp: data_seg_of_def seg_lookup_def split: if_splits)
  ultimately show ?case by simp
qed

definition allocate_block :: "fs \<Rightarrow> (int \<times> fs) option" where
  "allocate_block s = allocate_block_loop 0 s"

text \<open>\<open>Some None\<close> is the return value \<open>-1\<close>, with the caller's buffer left as it was.\<close>

definition read_block :: "int \<Rightarrow> fs \<Rightarrow> block option option" where
  "read_block block_id s =
     (if block_id < 0 then None
      else
        let segment_number = nat block_id div blocks_per_segment;
            block_index = nat block_id mod blocks_per_segment
        in case data_seg_of s segment_number of
             None \<Rightarrow> Some None
           | Some seg \<Rightarrow> Some (Some (blocks seg block_index)))"

definition write_block :: "int \<Rightarrow> block \<Rightarrow> fs \<Rightarrow> (int \<times> fs) option" where
  "write_block block_id buffer s =
     (if block_id < 0 then None
      else
        let segment_number = nat block_id div blocks_per_segment;
            block_index = nat block_id mod blocks_per_segment
        in case data_seg_of s segment_number of
             None \<Rightarrow> Some (- 1, s)
           | Some seg \<Rightarrow>
               Some (0, put_data_seg segment_number
                          (seg \<lparr> blocks := (blocks seg) (block_index := buffer) \<rparr>) s))"

definition free_block :: "int \<Rightarrow> fs \<Rightarrow> (int \<times> fs) option" where
  "free_block block_id s =
     (if block_id < 0 then None
      else
        let segment_number = nat block_id div blocks_per_segment;
            block_index = nat block_id mod blocks_per_segment
        in case data_seg_of s segment_number of
             None \<Rightarrow> Some (- 1, s)
           | Some seg \<Rightarrow>
               Some (0, put_data_seg segment_number
                          (seg \<lparr> dbitmap := clear_bit_bm (dbitmap seg) block_index \<rparr>) s))"

section \<open>Typed views of a data block\<close>

text \<open>
  A block is 4096 bytes. The program reads and writes it as \<^verbatim>\<open>char[4096]\<close>, as
  \<^verbatim>\<open>int[1024]\<close> (little-endian, two's complement) and as \<^verbatim>\<open>dir_entry_t[15]\<close>.
\<close>

definition bytes_to_int :: "byte \<Rightarrow> byte \<Rightarrow> byte \<Rightarrow> byte \<Rightarrow> int" where
  "bytes_to_int b0 b1 b2 b3 =
     sint ((ucast b0 OR push_bit 8 (ucast b1) OR push_bit 16 (ucast b2)
            OR push_bit 24 (ucast b3)) :: 32 word)"

definition int_to_byte :: "int \<Rightarrow> nat \<Rightarrow> byte" where
  "int_to_byte x k = ucast (drop_bit (8 * k) (word_of_int x :: 32 word))"

definition ints_of_block :: "block \<Rightarrow> nat \<Rightarrow> int" where
  "ints_of_block b i = bytes_to_int (b (4 * i)) (b (4 * i + 1)) (b (4 * i + 2)) (b (4 * i + 3))"

definition block_of_ints :: "(nat \<Rightarrow> int) \<Rightarrow> block" where
  "block_of_ints a k = (if k < BLOCK_SIZE then int_to_byte (a (k div 4)) (k mod 4) else 0)"

record dir_entry_t =
  name :: "nat \<Rightarrow> byte"
  inode_num :: int

definition entries_of_block :: "block \<Rightarrow> nat \<Rightarrow> dir_entry_t" where
  "entries_of_block b j =
     \<lparr> name = (\<lambda>k. if k < MAX_FILENAME then b (j * sizeof_dir_entry_t + k) else 0),
       inode_num = bytes_to_int (b (j * sizeof_dir_entry_t + MAX_FILENAME))
                                (b (j * sizeof_dir_entry_t + MAX_FILENAME + 1))
                                (b (j * sizeof_dir_entry_t + MAX_FILENAME + 2))
                                (b (j * sizeof_dir_entry_t + MAX_FILENAME + 3)) \<rparr>"

definition block_of_entries :: "(nat \<Rightarrow> dir_entry_t) \<Rightarrow> block" where
  "block_of_entries es k =
     (if k < sizeof_dir_entry_t * DIR_ENTRIES_PER_BLOCK then
        (let j = k div sizeof_dir_entry_t; off = k mod sizeof_dir_entry_t
         in if off < MAX_FILENAME then name (es j) off
            else int_to_byte (inode_num (es j)) (off - MAX_FILENAME))
      else 0)"

text \<open>The buffer of \<^verbatim>\<open>exfs2_add\<close> after one \<^verbatim>\<open>fread\<close> and the \<^verbatim>\<open>memset\<close> of its tail.\<close>

definition block_of_bytes :: "byte list \<Rightarrow> block" where
  "block_of_bytes bs k = (if k < length bs \<and> k < BLOCK_SIZE then bs ! k else 0)"

section \<open>Directory layer\<close>

definition load_directory_entries :: "int \<Rightarrow> fs \<Rightarrow> (nat \<Rightarrow> dir_entry_t) option option" where
  "load_directory_entries block_id s =
     (case read_block block_id s of
        None \<Rightarrow> None
      | Some None \<Rightarrow> Some None
      | Some (Some buffer) \<Rightarrow> Some (Some (entries_of_block buffer)))"

definition save_directory_entries :: "int \<Rightarrow> (nat \<Rightarrow> dir_entry_t) \<Rightarrow> fs \<Rightarrow> (int \<times> fs) option" where
  "save_directory_entries block_id entries s = write_block block_id (block_of_entries entries) s"

text \<open>
  \<^verbatim>\<open>strcmp(entry.name, name) == 0\<close> for a probe of at most 255 bytes without NUL: the
  comparison stops at the probe's terminator, inside the 256-byte field.
\<close>

definition strcmp_eq :: "(nat \<Rightarrow> byte) \<Rightarrow> byte list \<Rightarrow> bool" where
  "strcmp_eq field probe = (map field [0..<length probe] = probe \<and> field (length probe) = 0)"

text \<open>\<^verbatim>\<open>strncpy(field, name, 255); field[255] = 0\<close>.\<close>

definition strncpy_name :: "byte list \<Rightarrow> nat \<Rightarrow> byte" where
  "strncpy_name nm k = (if k < length nm \<and> k < MAX_FILENAME - 1 then nm ! k else 0)"

definition c_string :: "byte list \<Rightarrow> bool" where
  "c_string nm = (0 \<notin> set nm)"

definition find_in_entries :: "(nat \<Rightarrow> dir_entry_t) \<Rightarrow> byte list \<Rightarrow> nat option" where
  "find_in_entries entries nm =
     find (\<lambda>j. inode_num (entries j) \<noteq> - 1 \<and> strcmp_eq (name (entries j)) nm)
          [0..<DIR_ENTRIES_PER_BLOCK]"

function find_entry_loop :: "inode_t \<Rightarrow> byte list \<Rightarrow> nat \<Rightarrow> fs \<Rightarrow> int option" where
  "find_entry_loop dir_inode nm i s =
     (if int i < num_direct dir_inode then
        (if i \<ge> MAX_DIRECT_BLOCKS then None
         else case load_directory_entries (direct_blocks dir_inode i) s of
                None \<Rightarrow> None
              | Some None \<Rightarrow> find_entry_loop dir_inode nm (Suc i) s
              | Some (Some entries) \<Rightarrow>
                  (case find_in_entries entries nm of
                     Some j \<Rightarrow> Some (inode_num (entries j))
                   | None \<Rightarrow> find_entry_loop dir_inode nm (Suc i) s))
      else Some (- 1))"
  by pat_completeness auto
termination
  by (relation "measure (\<lambda>(d, nm, i, s). nat (num_direct d) - i)") auto

definition find_entry_in_dir :: "inode_t \<Rightarrow> byte list \<Rightarrow> fs \<Rightarrow> int option" where
  "find_entry_in_dir dir_inode nm s =
     (if i_type dir_inode \<noteq> INODE_DIR then Some (- 1)
      else if \<not> (c_string nm \<and> length nm < MAX_FILENAME) then None
      else find_entry_loop dir_inode nm 0 s)"

definition find_free_entry :: "(nat \<Rightarrow> dir_entry_t) \<Rightarrow> nat option" where
  "find_free_entry entries = find (\<lambda>j. inode_num (entries j) = - 1) [0..<DIR_ENTRIES_PER_BLOCK]"

text \<open>
  The first loop of \<^verbatim>\<open>add_entry_to_dir\<close>: \<open>Some (True, s')\<close> when a free slot was filled
  (the function then returns 0), \<open>Some (False, s)\<close> when every loaded block is full.
\<close>

function add_entry_scan :: "inode_t \<Rightarrow> byte list \<Rightarrow> int \<Rightarrow> nat \<Rightarrow> fs \<Rightarrow> (bool \<times> fs) option" where
  "add_entry_scan dir_inode nm child_inode_num i s =
     (if int i < num_direct dir_inode then
        (if i \<ge> MAX_DIRECT_BLOCKS then None
         else case load_directory_entries (direct_blocks dir_inode i) s of
                None \<Rightarrow> None
              | Some None \<Rightarrow> add_entry_scan dir_inode nm child_inode_num (Suc i) s
              | Some (Some entries) \<Rightarrow>
                  (case find_free_entry entries of
                     Some j \<Rightarrow>
                       do { (rc, s1) \<leftarrow> save_directory_entries (direct_blocks dir_inode i)
                                (entries (j := \<lparr> name = strncpy_name nm,
                                                 inode_num = child_inode_num \<rparr>)) s;
                            Some (True, s1) }
                   | None \<Rightarrow> add_entry_scan dir_inode nm child_inode_num (Suc i) s))
      else Some (False, s))"
  by pat_completeness auto
termination
  by (relation "measure (\<lambda>(d, nm, c, i, s). nat (num_direct d) - i)") auto

definition fresh_entries :: "byte list \<Rightarrow> int \<Rightarrow> nat \<Rightarrow> dir_entry_t" where
  "fresh_entries nm child_inode_num =
     (\<lambda>j. \<lparr> name = (\<lambda>_. 0), inode_num = - 1 \<rparr>)
       (0 := \<lparr> name = strncpy_name nm, inode_num = child_inode_num \<rparr>)"

text \<open>The directory inode is an in-out parameter: the result carries its new value.\<close>

definition add_entry_to_dir ::
  "inode_t \<Rightarrow> int \<Rightarrow> byte list \<Rightarrow> int \<Rightarrow> fs \<Rightarrow> (int \<times> inode_t \<times> fs) option" where
  "add_entry_to_dir dir_inode dir_inode_num nm child_inode_num s =
     (if i_type dir_inode \<noteq> INODE_DIR then Some (- 1, dir_inode, s)
      else do {
        found \<leftarrow> find_entry_in_dir dir_inode nm s;
        if found \<noteq> - 1 then Some (- 1, dir_inode, s)
        else do {
          (placed, s1) \<leftarrow> add_entry_scan dir_inode nm child_inode_num 0 s;
          if placed then Some (0, dir_inode, s1)
          else if num_direct dir_inode \<ge> int MAX_DIRECT_BLOCKS then Some (- 1, dir_inode, s1)
          else do {
            (new_block_id, s2) \<leftarrow> allocate_block s1;
            if new_block_id = - 1 then Some (- 1, dir_inode, s2)
            else do {
              (rc, s3) \<leftarrow> save_directory_entries new_block_id
                             (fresh_entries nm child_inode_num) s2;
              if rc \<noteq> 0 then
                do { (rc', s4) \<leftarrow> free_block new_block_id s3; Some (- 1, dir_inode, s4) }
              else if num_direct dir_inode < 0 then None
              else do {
                let dir_inode' = dir_inode
                      \<lparr> direct_blocks := (direct_blocks dir_inode)
                                            (nat (num_direct dir_inode) := new_block_id),
                        num_direct := num_direct dir_inode + 1,
                        i_size := i_size dir_inode + word_of_nat BLOCK_SIZE \<rparr>;
                (rc', s4) \<leftarrow> write_inode dir_inode_num dir_inode' s3;
                Some (0, dir_inode', s4) } } } } })"

section \<open>Path splitting\<close>

definition MAX_PATH :: nat where "MAX_PATH = 1024"

definition slash :: byte where "slash = 47"

text \<open>
  The \<^verbatim>\<open>strtok\<close> loop over the delimiter \<^verbatim>\<open>"/"\<close>: \<open>cur\<close> is the token being read; empty
  tokens are dropped.
\<close>

fun strtok_all :: "byte list \<Rightarrow> byte list \<Rightarrow> byte list list" where
  "strtok_all [] cur = (if cur = [] then [] else [cur])"
| "strtok_all (c # cs) cur =
     (if c = slash then (if cur = [] then strtok_all cs [] else cur # strtok_all cs [])
      else strtok_all cs (cur @ [c]))"

text \<open>A path is a C string: it ends at its first NUL byte.\<close>

definition split_path :: "byte list \<Rightarrow> byte list list" where
  "split_path path0 =
     (let path = takeWhile (\<lambda>c. c \<noteq> 0) path0 in
      if path = [] \<or> path = [slash] then []
      else
        let path_copy = take (MAX_PATH - 1) path;
            start = (if hd path_copy = slash then tl path_copy else path_copy)
        in take 32 (map (take (MAX_FILENAME - 1)) (strtok_all start [])))"

section \<open>Add\<close>

datatype diag =
    Invalid_path
  | Failed_to_read_root_inode
  | Failed_to_allocate_inode_for_directory
  | Failed_to_write_new_directory_inode
  | Failed_to_add_new_directory_entry
  | Failed_to_read_existing_directory_inode
  | Is_not_a_directory "byte list"
  | File_already_exists "byte list"
  | Failed_to_allocate_file_inode
  | Failed_to_open_local_file
  | Failed_to_allocate_data_block
  | Failed_to_write_data_block
  | Failed_to_allocate_indirect_block
  | Failed_to_allocate_double_indirect_block
  | Failed_to_allocate_level_1_block
  | Failed_to_write_file_inode
  | Failed_to_add_file_entry
  | Path_not_found "byte list"
  | Failed_to_read_inode
  | Not_a_regular_file
  | File_not_found "byte list"

definition new_dir_inode :: inode_t where
  "new_dir_inode = zero_inode \<lparr> i_type := INODE_DIR, i_size := 0, num_direct := 0,
     indirect_block := - 1, double_indirect_block := - 1, triple_indirect_block := - 1 \<rparr>"

definition new_file_inode :: inode_t where
  "new_file_inode = zero_inode \<lparr> i_type := INODE_FILE, i_size := 0, num_direct := 0,
     indirect_block := - 1, double_indirect_block := - 1, triple_indirect_block := - 1 \<rparr>"

text \<open>
  The loop that walks the components before the last one, creating the missing
  directories. \<open>Inl d\<close> is a diagnostic followed by \<^verbatim>\<open>return\<close>.
\<close>

fun add_walk :: "byte list list \<Rightarrow> int \<Rightarrow> inode_t \<Rightarrow> fs
                   \<Rightarrow> ((diag + int \<times> inode_t) \<times> fs) option" where
  "add_walk [] current_inode_num current_inode s = Some (Inr (current_inode_num, current_inode), s)"
| "add_walk (part # parts) current_inode_num current_inode s =
     (case find_entry_in_dir current_inode part s of
        None \<Rightarrow> None
      | Some next_inode_num \<Rightarrow>
          if next_inode_num = - 1 then
            (case allocate_inode s of
               None \<Rightarrow> None
             | Some (new_dir_inode_num, s1) \<Rightarrow>
                 if new_dir_inode_num = - 1 then Some (Inl Failed_to_allocate_inode_for_directory, s1)
                 else
                   (case write_inode new_dir_inode_num new_dir_inode s1 of
                      None \<Rightarrow> None
                    | Some (rc, s2) \<Rightarrow>
                        if rc \<noteq> 0 then Some (Inl Failed_to_write_new_directory_inode, s2)
                        else
                          (case add_entry_to_dir current_inode current_inode_num part
                                  new_dir_inode_num s2 of
                             None \<Rightarrow> None
                           | Some (rc', current_inode', s3) \<Rightarrow>
                               if rc' \<noteq> 0 then Some (Inl Failed_to_add_new_directory_entry, s3)
                               else add_walk parts new_dir_inode_num new_dir_inode s3)))
          else
            (case read_inode next_inode_num s of
               None \<Rightarrow> None
             | Some None \<Rightarrow> Some (Inl Failed_to_read_existing_directory_inode, s)
             | Some (Some ino) \<Rightarrow>
                 if i_type ino \<noteq> INODE_DIR then Some (Inl (Is_not_a_directory part), s)
                 else add_walk parts next_inode_num ino s))"

text \<open>The local variables of the copy loop of \<^verbatim>\<open>exfs2_add\<close>.\<close>

record add_locals =
  file_inode :: inode_t
  indirect_buf :: "nat \<Rightarrow> int"
  double_indirect_buf :: "nat \<Rightarrow> int"
  total_blocks :: int
  indirect_count :: int
  double_indirect_level1_count :: int
  double_indirect_level2_count :: int

definition init_locals :: add_locals where
  "init_locals = \<lparr> file_inode = new_file_inode, indirect_buf = (\<lambda>_. 0),
     double_indirect_buf = (\<lambda>_. 0), total_blocks = 0, indirect_count = 0,
     double_indirect_level1_count = 0, double_indirect_level2_count = 0 \<rparr>"

text \<open>An index into an \<^verbatim>\<open>int[1024]\<close> or into \<^verbatim>\<open>direct_blocks\<close>; outside the array the
  access is undefined.\<close>

definition in_bounds :: "int \<Rightarrow> nat \<Rightarrow> bool" where
  "in_bounds i n = (0 \<le> i \<and> i < int n)"

text \<open>The branch of the loop body for a block in the direct range.\<close>

definition place_direct :: "int \<Rightarrow> add_locals \<Rightarrow> fs \<Rightarrow> ((diag + add_locals) \<times> fs) option" where
  "place_direct block_id l s =
     (let fi = file_inode l in
      if \<not> in_bounds (num_direct fi) MAX_DIRECT_BLOCKS then None
      else Some (Inr (l \<lparr> file_inode := fi
                  \<lparr> direct_blocks := (direct_blocks fi) (nat (num_direct fi) := block_id),
                    num_direct := num_direct fi + 1 \<rparr> \<rparr>), s))"

text \<open>
  The branch for a block in the single-indirect range. First the indirect block is
  allocated (its in-memory copy zeroed) or read into the in-memory copy, which a failed
  read leaves as it was.
\<close>

definition load_indirect :: "add_locals \<Rightarrow> fs \<Rightarrow> (int \<times> (nat \<Rightarrow> int) \<times> fs) option" where
  "load_indirect l s =
     (if indirect_block (file_inode l) = - 1 then
        (case allocate_block s of
           None \<Rightarrow> None
         | Some (b, s1) \<Rightarrow> Some (b, (\<lambda>_. 0), s1))
      else
        (case read_block (indirect_block (file_inode l)) s of
           None \<Rightarrow> None
         | Some None \<Rightarrow> Some (indirect_block (file_inode l), indirect_buf l, s)
         | Some (Some buffer) \<Rightarrow> Some (indirect_block (file_inode l), ints_of_block buffer, s)))"

definition place_indirect :: "int \<Rightarrow> add_locals \<Rightarrow> fs \<Rightarrow> ((diag + add_locals) \<times> fs) option" where
  "place_indirect block_id l s =
     (case load_indirect l s of
        None \<Rightarrow> None
      | Some (ib, buf, s1) \<Rightarrow>
          if ib = - 1 then
            Some (Inl Failed_to_allocate_indirect_block, s1)
          else if \<not> in_bounds (indirect_count l) PTRS_PER_BLOCK then None
          else
            let buf' = buf (nat (indirect_count l) := block_id) in
            (case write_block ib (block_of_ints buf') s1 of
               None \<Rightarrow> None
             | Some (rc, s2) \<Rightarrow>
                 Some (Inr (l \<lparr> file_inode := (file_inode l) \<lparr> indirect_block := ib \<rparr>,
                               indirect_buf := buf',
                               indirect_count := indirect_count l + 1 \<rparr>), s2)))"

text \<open>
  The branch for every later block (the \<^verbatim>\<open>else\<close> of the loop body), in its three steps.
  First the double-indirect block is allocated, zeroed and written, or read.
\<close>

definition load_double :: "add_locals \<Rightarrow> fs \<Rightarrow> (int \<times> (nat \<Rightarrow> int) \<times> fs) option" where
  "load_double l s =
     (if double_indirect_block (file_inode l) = - 1 then
        (case allocate_block s of
           None \<Rightarrow> None
         | Some (b, s1) \<Rightarrow>
             if b = - 1 then Some (b, double_indirect_buf l, s1)
             else (case write_block b (block_of_ints (\<lambda>_. 0)) s1 of
                     None \<Rightarrow> None
                   | Some (rc, s2) \<Rightarrow> Some (b, (\<lambda>_. 0), s2)))
      else
        (case read_block (double_indirect_block (file_inode l)) s of
           None \<Rightarrow> None
         | Some None \<Rightarrow> Some (double_indirect_block (file_inode l), double_indirect_buf l, s)
         | Some (Some buffer) \<Rightarrow>
             Some (double_indirect_block (file_inode l), ints_of_block buffer, s)))"

text \<open>
  Then the test for a new level-1 block:
  \<^verbatim>\<open>level2_count >= 1024 || double_indirect_block[level1_count] == 0\<close>, where the array is
  read only when the first disjunct is false; when the test holds a level-1 block is
  allocated, recorded at \<^verbatim>\<open>double_indirect_block[level1_count++]\<close> and zeroed on the disk.
  The result is the in-memory double-indirect block and the two counters.
\<close>

definition open_level1 ::
  "(nat \<Rightarrow> int) \<Rightarrow> int \<Rightarrow> int \<Rightarrow> fs \<Rightarrow> ((diag + (nat \<Rightarrow> int) \<times> int \<times> int) \<times> fs) option" where
  "open_level1 dbuf l1c l2c s =
     (if l2c < int PTRS_PER_BLOCK \<and> \<not> in_bounds l1c PTRS_PER_BLOCK then None
      else if l2c \<ge> int PTRS_PER_BLOCK \<or> dbuf (nat l1c) = 0 then
        (case allocate_block s of
           None \<Rightarrow> None
         | Some (new_level1_block, s1) \<Rightarrow>
             if new_level1_block = - 1 then Some (Inl Failed_to_allocate_level_1_block, s1)
             else if \<not> in_bounds l1c PTRS_PER_BLOCK then None
             else
               (case write_block new_level1_block (block_of_ints (\<lambda>_. 0)) s1 of
                  None \<Rightarrow> None
                | Some (rc, s2) \<Rightarrow>
                    Some (Inr (dbuf (nat l1c := new_level1_block), l1c + 1, 0), s2)))
      else Some (Inr (dbuf, l1c, l2c), s))"

text \<open>
  Last the current level-1 block is read, the data block stored in it, and both blocks
  written back. \<^verbatim>\<open>level1_data\<close> is an uninitialised local: when the \<^verbatim>\<open>read_block\<close> that
  fills it fails its use is undefined.
\<close>

definition store_level1 ::
  "int \<Rightarrow> int \<Rightarrow> (nat \<Rightarrow> int) \<Rightarrow> int \<Rightarrow> int \<Rightarrow> add_locals \<Rightarrow> fs
     \<Rightarrow> ((diag + add_locals) \<times> fs) option" where
  "store_level1 block_id db dbuf l1c l2c l s =
     (if \<not> in_bounds (l1c - 1) PTRS_PER_BLOCK then None
      else
        let level1_block_id = dbuf (nat (l1c - 1)) in
        (case read_block level1_block_id s of
           None \<Rightarrow> None
         | Some None \<Rightarrow> None
         | Some (Some buffer) \<Rightarrow>
             if \<not> in_bounds l2c PTRS_PER_BLOCK then None
             else
               let level1_data = (ints_of_block buffer) (nat l2c := block_id) in
               (case write_block level1_block_id (block_of_ints level1_data) s of
                  None \<Rightarrow> None
                | Some (rc, s1) \<Rightarrow>
                    (case write_block db (block_of_ints dbuf) s1 of
                       None \<Rightarrow> None
                     | Some (rc', s2) \<Rightarrow>
                         Some (Inr (l \<lparr> file_inode := (file_inode l) \<lparr> double_indirect_block := db \<rparr>,
                                       double_indirect_buf := dbuf,
                                       double_indirect_level1_count := l1c,
                                       double_indirect_level2_count := l2c + 1 \<rparr>),
                               s2)))))"

definition place_double :: "int \<Rightarrow> add_locals \<Rightarrow> fs \<Rightarrow> ((diag + add_locals) \<times> fs) option" where
  "place_double block_id l s =
     (case load_double l s of
        None \<Rightarrow> None
      | Some (db, dbuf, s1) \<Rightarrow>
          if db = - 1 then Some (Inl Failed_to_allocate_double_indirect_block, s1)
          else
            (case open_level1 dbuf (double_indirect_level1_count l)
                    (double_indirect_level2_count l) s1 of
               None \<Rightarrow> None
             | Some (Inl d, s2) \<Rightarrow> Some (Inl d, s2)
             | Some (Inr (dbuf', l1c', l2c'), s2) \<Rightarrow>
                 store_level1 block_id db dbuf' l1c' l2c' l s2))"

text \<open>One iteration of the copy loop, for the bytes of one \<^verbatim>\<open>fread\<close>.\<close>

definition add_block :: "byte list \<Rightarrow> add_locals \<Rightarrow> fs \<Rightarrow> ((diag + add_locals) \<times> fs) option" where
  "add_block chunk l s =
     (case allocate_block s of
        None \<Rightarrow> None
      | Some (block_id, s1) \<Rightarrow>
          if block_id = - 1 then Some (Inl Failed_to_allocate_data_block, s1)
          else
            (case write_block block_id (block_of_bytes chunk) s1 of
               None \<Rightarrow> None
             | Some (rc, s2) \<Rightarrow>
                 if rc \<noteq> 0 then Some (Inl Failed_to_write_data_block, s2)
                 else
                   (case (if total_blocks l < int MAX_DIRECT_BLOCKS then place_direct block_id l s2
                          else if total_blocks l < int (MAX_DIRECT_BLOCKS + PTRS_PER_BLOCK)
                          then place_indirect block_id l s2
                          else place_double block_id l s2) of
                      None \<Rightarrow> None
                    | Some (Inl d, s3) \<Rightarrow> Some (Inl d, s3)
                    | Some (Inr l', s3) \<Rightarrow>
                        Some (Inr (l' \<lparr> total_blocks := total_blocks l' + 1,
                                        file_inode := (file_inode l')
                                          \<lparr> i_size := i_size (file_inode l')
                                                        + word_of_nat (length chunk) \<rparr> \<rparr>), s3))))"

fun add_blocks :: "byte list list \<Rightarrow> add_locals \<Rightarrow> fs \<Rightarrow> ((diag + add_locals) \<times> fs) option" where
  "add_blocks [] l s = Some (Inr l, s)"
| "add_blocks (chunk # chunks) l s =
     (case add_block chunk l s of
        None \<Rightarrow> None
      | Some (Inl d, s1) \<Rightarrow> Some (Inl d, s1)
      | Some (Inr l1, s1) \<Rightarrow> add_blocks chunks l1 s1)"

text \<open>The successive results of \<^verbatim>\<open>fread(buffer, 1, BLOCK_SIZE, local_fp)\<close> until it returns 0.\<close>

function chunks_of :: "byte list \<Rightarrow> byte list list" where
  "chunks_of bs = (if bs = [] then [] else take BLOCK_SIZE bs # chunks_of (drop BLOCK_SIZE bs))"
  by pat_completeness auto
termination
  by (relation "measure length") (auto simp: BLOCK_SIZE_def)

text \<open>
  \<^verbatim>\<open>exfs2_add\<close>. The local file is its content, or \<open>None\<close> when it cannot be opened. The
  result is the diagnostic printed on the error stream (\<open>None\<close> on success) and the new state.
\<close>

definition exfs2_add :: "byte list \<Rightarrow> byte list option \<Rightarrow> fs \<Rightarrow> (diag option \<times> fs) option" where
  "exfs2_add exfs2_path local_file s =
     (let parts = split_path exfs2_path in
      if parts = [] then Some (Some Invalid_path, s)
      else
        case read_inode ROOT_DIR_INODE s of
          None \<Rightarrow> None
        | Some None \<Rightarrow> Some (Some Failed_to_read_root_inode, s)
        | Some (Some root) \<Rightarrow>
            (case add_walk (butlast parts) ROOT_DIR_INODE root s of
               None \<Rightarrow> None
             | Some (Inl d, s1) \<Rightarrow> Some (Some d, s1)
             | Some (Inr (current_inode_num, current_inode), s1) \<Rightarrow>
                 let filename = last parts in
                 (case find_entry_in_dir current_inode filename s1 of
                    None \<Rightarrow> None
                  | Some found \<Rightarrow>
                      if found \<noteq> - 1 then Some (Some (File_already_exists filename), s1)
                      else
                        (case allocate_inode s1 of
                           None \<Rightarrow> None
                         | Some (file_inode_num, s2) \<Rightarrow>
                             if file_inode_num = - 1 then Some (Some Failed_to_allocate_file_inode, s2)
                             else
                               (case local_file of
                                  None \<Rightarrow> Some (Some Failed_to_open_local_file, s2)
                                | Some content \<Rightarrow>
                                    (case add_blocks (chunks_of content) init_locals s2 of
                                       None \<Rightarrow> None
                                     | Some (Inl d, s3) \<Rightarrow> Some (Some d, s3)
                                     | Some (Inr l, s3) \<Rightarrow>
                                         (case write_inode file_inode_num (file_inode l) s3 of
                                            None \<Rightarrow> None
                                          | Some (rc, s4) \<Rightarrow>
                                              if rc \<noteq> 0 then Some (Some Failed_to_write_file_inode, s4)
                                              else
                                                (case add_entry_to_dir current_inode current_inode_num
                                                        filename file_inode_num s4 of
                                                   None \<Rightarrow> None
                                                 | Some (rc', ci, s5) \<Rightarrow>
                                                     if rc' \<noteq> 0 then Some (Some Failed_to_add_file_entry, s5)
                                                     else Some (None, s5)))))))))"

section \<open>Extract\<close>

text \<open>
  The walk of \<^verbatim>\<open>exfs2_extract\<close> (over all components) and of \<^verbatim>\<open>exfs2_remove\<close> (over the
  components before the last).
\<close>

fun walk_path :: "byte list list \<Rightarrow> int \<Rightarrow> inode_t \<Rightarrow> fs \<Rightarrow> (diag + int \<times> inode_t) option" where
  "walk_path [] current_inode_num current_inode s = Some (Inr (current_inode_num, current_inode))"
| "walk_path (part # parts) current_inode_num current_inode s =
     (case find_entry_in_dir current_inode part s of
        None \<Rightarrow> None
      | Some next_inode_num \<Rightarrow>
          if next_inode_num = - 1 then Some (Inl (Path_not_found part))
          else (case read_inode next_inode_num s of
                  None \<Rightarrow> None
                | Some None \<Rightarrow> Some (Inl Failed_to_read_inode)
                | Some (Some ino) \<Rightarrow> walk_path parts next_inode_num ino s))"

text \<open>
  One data block written to the standard output: the bytes emitted and the new value of
  \<^verbatim>\<open>remaining\<close>. A block that cannot be read is skipped.
\<close>

definition emit_block :: "int \<Rightarrow> int \<Rightarrow> fs \<Rightarrow> (byte list \<times> int) option" where
  "emit_block block_id remaining s =
     (case read_block block_id s of
        None \<Rightarrow> None
      | Some None \<Rightarrow> Some ([], remaining)
      | Some (Some buffer) \<Rightarrow>
          let to_write = (if remaining > int BLOCK_SIZE then int BLOCK_SIZE else remaining)
          in Some (map buffer [0..<nat to_write], remaining - to_write))"

function extract_direct :: "inode_t \<Rightarrow> nat \<Rightarrow> int \<Rightarrow> fs \<Rightarrow> (byte list \<times> int) option" where
  "extract_direct ino i remaining s =
     (if int i < num_direct ino \<and> remaining > 0 then
        (if i \<ge> MAX_DIRECT_BLOCKS then None
         else case emit_block (direct_blocks ino i) remaining s of
                None \<Rightarrow> None
              | Some (out, r) \<Rightarrow>
                  (case extract_direct ino (Suc i) r s of
                     None \<Rightarrow> None
                   | Some (out', r') \<Rightarrow> Some (out @ out', r')))
      else Some ([], remaining))"
  by pat_completeness auto
termination
  by (relation "measure (\<lambda>(ino, i, r, s). nat (num_direct ino) - i)") auto

function extract_single :: "(nat \<Rightarrow> int) \<Rightarrow> nat \<Rightarrow> int \<Rightarrow> fs \<Rightarrow> (byte list \<times> int) option" where
  "extract_single ib i remaining s =
     (if i < PTRS_PER_BLOCK \<and> remaining > 0 then
        (if ib i = 0 then Some ([], remaining)
         else case emit_block (ib i) remaining s of
                None \<Rightarrow> None
              | Some (out, r) \<Rightarrow>
                  (case extract_single ib (Suc i) r s of
                     None \<Rightarrow> None
                   | Some (out', r') \<Rightarrow> Some (out @ out', r')))
      else Some ([], remaining))"
  by pat_completeness auto
termination
  by (relation "measure (\<lambda>(ib, i, r, s). PTRS_PER_BLOCK - i)") auto

function extract_double :: "(nat \<Rightarrow> int) \<Rightarrow> nat \<Rightarrow> int \<Rightarrow> fs \<Rightarrow> (byte list \<times> int) option" where
  "extract_double dib i remaining s =
     (if i < PTRS_PER_BLOCK \<and> remaining > 0 then
        (if dib i = 0 then Some ([], remaining)
         else case (case read_block (dib i) s of
                      None \<Rightarrow> None
                    | Some None \<Rightarrow> Some ([], remaining)
                    | Some (Some buffer) \<Rightarrow> extract_single (ints_of_block buffer) 0 remaining s) of
                None \<Rightarrow> None
              | Some (out, r) \<Rightarrow>
                  (case extract_double dib (Suc i) r s of
                     None \<Rightarrow> None
                   | Some (out', r') \<Rightarrow> Some (out @ out', r')))
      else Some ([], remaining))"
  by pat_completeness auto
termination
  by (relation "measure (\<lambda>(ib, i, r, s). PTRS_PER_BLOCK - i)") auto

function extract_triple :: "(nat \<Rightarrow> int) \<Rightarrow> nat \<Rightarrow> int \<Rightarrow> fs \<Rightarrow> (byte list \<times> int) option" where
  "extract_triple tib i remaining s =
     (if i < PTRS_PER_BLOCK \<and> remaining > 0 then
        (if tib i = 0 then Some ([], remaining)
         else case (case read_block (tib i) s of
                      None \<Rightarrow> None
                    | Some None \<Rightarrow> Some ([], remaining)
                    | Some (Some buffer) \<Rightarrow> extract_double (ints_of_block buffer) 0 remaining s) of
                None \<Rightarrow> None
              | Some (out, r) \<Rightarrow>
                  (case extract_triple tib (Suc i) r s of
                     None \<Rightarrow> None
                   | Some (out', r') \<Rightarrow> Some (out @ out', r')))
      else Some ([], remaining))"
  by pat_completeness auto
termination
  by (relation "measure (\<lambda>(ib, i, r, s). PTRS_PER_BLOCK - i)") auto

text \<open>
  One of the three indirect sections of \<^verbatim>\<open>exfs2_extract\<close>: skipped when the pointer is
  \<open>-1\<close>, when nothing remains or when the pointer block cannot be read.
\<close>

definition extract_section ::
  "((nat \<Rightarrow> int) \<Rightarrow> nat \<Rightarrow> int \<Rightarrow> fs \<Rightarrow> (byte list \<times> int) option) \<Rightarrow> int \<Rightarrow> int \<Rightarrow> fs
     \<Rightarrow> (byte list \<times> int) option" where
  "extract_section loop ptr remaining s =
     (if ptr \<noteq> - 1 \<and> remaining > 0 then
        (case read_block ptr s of
           None \<Rightarrow> None
         | Some None \<Rightarrow> Some ([], remaining)
         | Some (Some buffer) \<Rightarrow> loop (ints_of_block buffer) 0 remaining s)
      else Some ([], remaining))"

text \<open>\<^verbatim>\<open>int remaining = current_inode.size\<close>: the \<^verbatim>\<open>size_t\<close> is cut to 32 bits.\<close>

definition size_to_int :: "64 word \<Rightarrow> int" where
  "size_to_int sz = sint (ucast sz :: 32 word)"

definition extract_file :: "inode_t \<Rightarrow> fs \<Rightarrow> byte list option" where
  "extract_file ino s =
     (case extract_direct ino 0 (size_to_int (i_size ino)) s of
        None \<Rightarrow> None
      | Some (out1, r1) \<Rightarrow>
          (case extract_section extract_single (indirect_block ino) r1 s of
             None \<Rightarrow> None
           | Some (out2, r2) \<Rightarrow>
               (case extract_section extract_double (double_indirect_block ino) r2 s of
                  None \<Rightarrow> None
                | Some (out3, r3) \<Rightarrow>
                    (case extract_section extract_triple (triple_indirect_block ino) r3 s of
                       None \<Rightarrow> None
                     | Some (out4, r4) \<Rightarrow> Some (out1 @ out2 @ out3 @ out4)))))"

text \<open>\<^verbatim>\<open>exfs2_extract\<close>: the diagnostic, or the bytes written to the standard output.\<close>

definition exfs2_extract :: "byte list \<Rightarrow> fs \<Rightarrow> (diag + byte list) option" where
  "exfs2_extract exfs2_path s =
     (let parts = split_path exfs2_path in
      if parts = [] then Some (Inl Invalid_path)
      else
        case read_inode ROOT_DIR_INODE s of
          None \<Rightarrow> None
        | Some None \<Rightarrow> Some (Inl Failed_to_read_root_inode)
        | Some (Some root) \<Rightarrow>
            (case walk_path parts ROOT_DIR_INODE root s of
               None \<Rightarrow> None
             | Some (Inl d) \<Rightarrow> Some (Inl d)
             | Some (Inr (current_inode_num, current_inode)) \<Rightarrow>
                 if i_type current_inode \<noteq> INODE_FILE then Some (Inl Not_a_regular_file)
                 else map_option Inr (extract_file current_inode s)))"

section \<open>Remove\<close>

text \<open>A \<^verbatim>\<open>for\<close> loop over a list of indices whose body changes the state.\<close>

fun for_each :: "('a \<Rightarrow> fs \<Rightarrow> fs option) \<Rightarrow> 'a list \<Rightarrow> fs \<Rightarrow> fs option" where
  "for_each body [] s = Some s"
| "for_each body (x # xs) s =
     (case body x s of None \<Rightarrow> None | Some s1 \<Rightarrow> for_each body xs s1)"

text \<open>\<^verbatim>\<open>free_block\<close> with its return value ignored.\<close>

definition free_block_ign :: "int \<Rightarrow> fs \<Rightarrow> fs option" where
  "free_block_ign block_id s = map_option snd (free_block block_id s)"

text \<open>The file branch of \<^verbatim>\<open>exfs2_remove_recursive\<close>, from the first loop to the indirect block.\<close>

definition free_direct_blocks :: "inode_t \<Rightarrow> fs \<Rightarrow> fs option" where
  "free_direct_blocks ino s =
     for_each (\<lambda>i s. if i \<ge> MAX_DIRECT_BLOCKS then None
                      else free_block_ign (direct_blocks ino i) s)
       [0..<nat (num_direct ino)] s"

function free_indirect_entries :: "(nat \<Rightarrow> int) \<Rightarrow> nat \<Rightarrow> fs \<Rightarrow> fs option" where
  "free_indirect_entries indirect_block_data i s =
     (if i < PTRS_PER_BLOCK then
        (if indirect_block_data i = 0 then Some s
         else case free_block_ign (indirect_block_data i) s of
                None \<Rightarrow> None
              | Some s1 \<Rightarrow> free_indirect_entries indirect_block_data (Suc i) s1)
      else Some s)"
  by pat_completeness auto
termination
  by (relation "measure (\<lambda>(d, i, s). PTRS_PER_BLOCK - i)") auto

definition free_indirect :: "inode_t \<Rightarrow> fs \<Rightarrow> fs option" where
  "free_indirect ino s =
     (if indirect_block ino \<noteq> - 1 then
        (case read_block (indirect_block ino) s of
           None \<Rightarrow> None
         | Some rd \<Rightarrow>
             (case (case rd of
                      None \<Rightarrow> Some s
                    | Some buffer \<Rightarrow> free_indirect_entries (ints_of_block buffer) 0 s) of
                None \<Rightarrow> None
              | Some s1 \<Rightarrow> free_block_ign (indirect_block ino) s1))
      else Some s)"

definition remove_file :: "inode_t \<Rightarrow> int \<Rightarrow> fs \<Rightarrow> fs option" where
  "remove_file ino inode_number s =
     (case free_direct_blocks ino s of
        None \<Rightarrow> None
      | Some s1 \<Rightarrow>
          (case free_indirect ino s1 of
             None \<Rightarrow> None
           | Some s2 \<Rightarrow> map_option snd (free_inode inode_number s2)))"

text \<open>
  \<^verbatim>\<open>exfs2_remove_recursive\<close>. The recursion follows the directory entries stored on the
  disk, so it is bounded by \<open>fuel\<close>, the depth it may still descend; \<open>None\<close> is also the
  result when the fuel runs out.
\<close>

fun exfs2_remove_recursive :: "nat \<Rightarrow> int \<Rightarrow> fs \<Rightarrow> fs option" where
  "exfs2_remove_recursive 0 inode_number s = None"
| "exfs2_remove_recursive (Suc fuel) inode_number s =
     (case read_inode inode_number s of
        None \<Rightarrow> None
      | Some None \<Rightarrow> Some s
      | Some (Some ino) \<Rightarrow>
          if i_type ino = INODE_FILE then remove_file ino inode_number s
          else if i_type ino = INODE_DIR then
            (case for_each
                    (\<lambda>i s. if i \<ge> MAX_DIRECT_BLOCKS then None
                            else case load_directory_entries (direct_blocks ino i) s of
                                   None \<Rightarrow> None
                                 | Some None \<Rightarrow> Some s
                                 | Some (Some entries) \<Rightarrow>
                                     (case for_each
                                             (\<lambda>j s. if inode_num (entries j) \<noteq> - 1
                                                     then exfs2_remove_recursive fuel
                                                            (inode_num (entries j)) s
                                                     else Some s)
                                             [0..<DIR_ENTRIES_PER_BLOCK] s of
                                        None \<Rightarrow> None
                                      | Some s1 \<Rightarrow> free_block_ign (direct_blocks ino i) s1))
                    [0..<nat (num_direct ino)] s of
               None \<Rightarrow> None
             | Some s1 \<Rightarrow> map_option snd (free_inode inode_number s1))
          else Some s)"

text \<open>The last loop of \<^verbatim>\<open>exfs2_remove\<close>: in every block of the parent, the first entry
  that names the target is cleared.\<close>

definition clear_parent_entries :: "inode_t \<Rightarrow> int \<Rightarrow> fs \<Rightarrow> fs option" where
  "clear_parent_entries current_inode target_inode_num s =
     for_each
       (\<lambda>i s. if i \<ge> MAX_DIRECT_BLOCKS then None
               else case load_directory_entries (direct_blocks current_inode i) s of
                      None \<Rightarrow> None
                    | Some None \<Rightarrow> Some s
                    | Some (Some entries) \<Rightarrow>
                        (case find (\<lambda>j. inode_num (entries j) = target_inode_num)
                                [0..<DIR_ENTRIES_PER_BLOCK] of
                           None \<Rightarrow> Some s
                         | Some j \<Rightarrow>
                             map_option snd
                               (save_directory_entries (direct_blocks current_inode i)
                                  (entries (j := \<lparr> name = (\<lambda>_. 0), inode_num = - 1 \<rparr>)) s)))
       [0..<nat (num_direct current_inode)] s"

definition exfs2_remove :: "nat \<Rightarrow> byte list \<Rightarrow> fs \<Rightarrow> (diag option \<times> fs) option" where
  "exfs2_remove fuel exfs2_path s =
     (let parts = split_path exfs2_path in
      if parts = [] then Some (Some Invalid_path, s)
      else
        case read_inode ROOT_DIR_INODE s of
          None \<Rightarrow> None
        | Some None \<Rightarrow> Some (Some Failed_to_read_root_inode, s)
        | Some (Some root) \<Rightarrow>
            (case walk_path (butlast parts) ROOT_DIR_INODE root s of
               None \<Rightarrow> None
             | Some (Inl d) \<Rightarrow> Some (Some d, s)
             | Some (Inr (current_inode_num, current_inode)) \<Rightarrow>
                 (case find_entry_in_dir current_inode (last parts) s of
                    None \<Rightarrow> None
                  | Some target_inode_num \<Rightarrow>
                      if target_inode_num = - 1 then Some (Some (File_not_found (last parts)), s)
                      else
                        (case exfs2_remove_recursive fuel target_inode_num s of
                           None \<Rightarrow> None
                         | Some s1 \<Rightarrow>
                             (case clear_parent_entries current_inode target_inode_num s1 of
                                None \<Rightarrow> None
                              | Some s2 \<Rightarrow> Some (None, s2))))))"

section \<open>Initialisation\<close>

definition init_fs :: "fs \<Rightarrow> (int \<times> fs) option" where
  "init_fs s =
     (case inode_seg_of s 0 of
        Some seg \<Rightarrow> Some (0, s)
      | None \<Rightarrow>
          (case create_new_segment 0 INODE_SEGMENT s of
             None \<Rightarrow> None
           | Some (rc, s1) \<Rightarrow>
               if rc \<noteq> 0 then Some (- 1, s1)
               else (case create_new_segment 0 DATA_SEGMENT s1 of
                       None \<Rightarrow> None
                     | Some (rc', s2) \<Rightarrow> if rc' \<noteq> 0 then Some (- 1, s2) else Some (0, s2))))"

text \<open>The empty host directory in which \<open>h\<close> segment files can be created.\<close>

definition empty_host :: "nat \<Rightarrow> fs" where
  "empty_host h = \<lparr> inode_segs = [], data_segs = [], host_free = h \<rparr>"

section \<open>Observations on a state\<close>

text \<open>The bit of a block or an inode in the bitmap of its segment.\<close>

definition block_allocated :: "fs \<Rightarrow> int \<Rightarrow> bool" where
  "block_allocated s block_id =
     (0 \<le> block_id \<and>
      (case data_seg_of s (nat block_id div blocks_per_segment) of
         None \<Rightarrow> False
       | Some seg \<Rightarrow> test_bit_bm (dbitmap seg) (nat block_id mod blocks_per_segment)))"


text \<open>Data segment \<open>k\<close> as \<^verbatim>\<open>allocate_block\<close> finds it after opening or creating it.\<close>

definition dseg :: "fs \<Rightarrow> nat \<Rightarrow> data_seg" where
  "dseg s k = (case data_seg_of s k of None \<Rightarrow> zero_data_seg | Some sg \<Rightarrow> sg)"


section \<open>The program and the states it reaches\<close>

datatype command =
    List
  | Add "byte list" "byte list option"
  | Remove "byte list"
  | Extract "byte list"
  | Debug "byte list"

text \<open>
  \<^verbatim>\<open>main\<close> with well-formed arguments: initialise, then run the command. Listing, extracting
  and debugging only read the disk. \<open>fuel\<close> bounds the recursion of a removal.
\<close>

definition exfs2_main :: "nat \<Rightarrow> command \<Rightarrow> fs \<Rightarrow> fs option" where
  "exfs2_main fuel cmd s =
     (case init_fs s of
        None \<Rightarrow> None
      | Some (rc, s1) \<Rightarrow>
          if rc \<noteq> 0 then Some s1
          else (case cmd of
                  Add exfs2_path local_file \<Rightarrow> map_option snd (exfs2_add exfs2_path local_file s1)
                | Remove exfs2_path \<Rightarrow> map_option snd (exfs2_remove fuel exfs2_path s1)
                | Extract exfs2_path \<Rightarrow> map_option (\<lambda>_. s1) (exfs2_extract exfs2_path s1)
                | _ \<Rightarrow> Some s1))"


text \<open>The size equation of a directory inode, and of every inode record on the disk.\<close>

definition dir_size_ok :: "inode_t \<Rightarrow> bool" where
  "dir_size_ok ino = (i_type ino = INODE_DIR \<longrightarrow> uint (i_size ino) = num_direct ino * int BLOCK_SIZE)"

definition dir_size_inv :: "fs \<Rightarrow> bool" where
  "dir_size_inv s = (\<forall>k seg i. inode_seg_of s k = Some seg \<longrightarrow> dir_size_ok (inodes seg i))"

text \<open>The first direct block of an inode that has one.\<close>

definition first_direct_block :: "int \<Rightarrow> fs \<Rightarrow> int option" where
  "first_direct_block inode_number s =
     (case read_inode inode_number s of
        Some (Some ino) \<Rightarrow> if 0 < num_direct ino then Some (direct_blocks ino 0) else None
      | _ \<Rightarrow> None)"

text \<open>The number of direct blocks of an inode on the disk.\<close>

definition num_direct_of :: "int \<Rightarrow> fs \<Rightarrow> int option" where
  "num_direct_of inode_number s =
     (case read_inode inode_number s of
        Some (Some ino) \<Rightarrow> Some (num_direct ino)
      | _ \<Rightarrow> None)"

text \<open>
  A directory that has only grown: its \<open>k\<close> live entries fill its blocks in order, so it
  has \<open>\<lceil>k / DIR_ENTRIES_PER_BLOCK\<rceil>\<close> blocks, all allocated and readable, and slot \<open>j\<close> of
  block \<open>i\<close> is live exactly when \<open>i * DIR_ENTRIES_PER_BLOCK + j < k\<close>.
\<close>

definition dir_filled :: "inode_t \<Rightarrow> fs \<Rightarrow> nat \<Rightarrow> bool" where
  "dir_filled d s k =
     (let n = (k + (DIR_ENTRIES_PER_BLOCK - 1)) div DIR_ENTRIES_PER_BLOCK
      in num_direct d = int n \<and> n \<le> MAX_DIRECT_BLOCKS
       \<and> (\<forall>i<n. block_allocated s (direct_blocks d i)
             \<and> (\<exists>b. read_block (direct_blocks d i) s = Some (Some b)
                    \<and> (\<forall>j<DIR_ENTRIES_PER_BLOCK.
                          (inode_num (entries_of_block b j) \<noteq> - 1)
                           = (i * DIR_ENTRIES_PER_BLOCK + j < k)))))"

section \<open>The invariant of the copy loop\<close>

text \<open>Block \<open>b\<close> is allocated and holds the \<^verbatim>\<open>int[1024]\<close> array \<open>a\<close>.\<close>

definition stores_ints :: "fs \<Rightarrow> int \<Rightarrow> (nat \<Rightarrow> int) \<Rightarrow> bool" where
  "stores_ints s b a =
     (0 \<le> b \<and> block_allocated s b \<and> read_block b s = Some (Some (block_of_ints a)))"

text \<open>
  What holds between two iterations of the copy loop of \<^verbatim>\<open>exfs2_add\<close>, \<open>n\<close> blocks having
  been placed: block 0 is taken as soon as one block was allocated; the direct slots
  are used first; from block 1017 on the indirect block is on the disk as its in-memory
  copy, whose first \<open>indirect_count\<close> entries are block numbers and the others 0; from
  block 2041 on the same holds of the double-indirect block with \<open>level1_count = n - 2041\<close>
  entries, each a level-1 block of its own that holds exactly one data block, at slot 0,
  and \<open>level2_count\<close> is 1.
\<close>

definition copy_inv_at :: "int \<Rightarrow> add_locals \<Rightarrow> fs \<Rightarrow> bool" where
  "copy_inv_at n l s =
     (let fi = file_inode l;
          ib = indirect_block fi; db = double_indirect_block fi;
          ibuf = indirect_buf l; dbuf = double_indirect_buf l;
          l1c = double_indirect_level1_count l
      in 0 \<le> n \<and> (0 < n \<longrightarrow> block_allocated s 0)
       \<and> num_direct fi = min n 1017
       \<and> indirect_count l = min (max n 1017) 2041 - 1017
       \<and> (n \<le> 1017 \<longrightarrow> ib = - 1)
       \<and> (1017 < n \<longrightarrow> stores_ints s ib ibuf
             \<and> (\<forall>k. int k < indirect_count l \<longrightarrow> 0 < ibuf k \<and> ibuf k \<le> INT_MAX)
             \<and> (\<forall>k. indirect_count l \<le> int k \<longrightarrow> ibuf k = 0))
       \<and> (n \<le> 2041 \<longrightarrow> db = - 1 \<and> l1c = 0 \<and> double_indirect_level2_count l = 0)
       \<and> (2041 < n \<longrightarrow> l1c = n - 2041 \<and> l1c \<le> 1024 \<and> double_indirect_level2_count l = 1
             \<and> stores_ints s db dbuf \<and> db \<noteq> ib
             \<and> (\<forall>k. int k < l1c \<longrightarrow> 0 < dbuf k \<and> dbuf k \<le> INT_MAX \<and> dbuf k \<noteq> db
                     \<and> dbuf k \<noteq> ib
                     \<and> (\<exists>x. 0 < x \<and> x \<le> INT_MAX \<and> stores_ints s (dbuf k) ((\<lambda>_. 0) (0 := x))))
             \<and> (\<forall>k. l1c \<le> int k \<longrightarrow> dbuf k = 0)))"

definition copy_inv :: "add_locals \<Rightarrow> fs \<Rightarrow> bool" where
  "copy_inv l s = copy_inv_at (total_blocks l) l s"

text \<open>A step that keeps every allocated block allocated and every stored array outside
  the set \<open>W\<close> of blocks it wrote.\<close>

definition keeps :: "fs \<Rightarrow> fs \<Rightarrow> int set \<Rightarrow> bool" where
  "keeps s s' W =
     ((\<forall>b. block_allocated s b \<longrightarrow> block_allocated s' b)
      \<and> (\<forall>b a. stores_ints s b a \<and> b \<notin> W \<longrightarrow> stores_ints s' b a))"

text \<open>
  Room for \<open>k\<close> more allocations: the host can create \<open>k\<close> segment files, and the block
  numbers of \<open>k\<close> more data segments fit an \<^verbatim>\<open>int\<close>.
\<close>

definition room :: "fs \<Rightarrow> nat \<Rightarrow> bool" where
  "room s k = (k \<le> host_free s
     \<and> (int (length (data_segs s)) + int k) * int blocks_per_segment \<le> INT_MAX)"

section \<open>Example states\<close>

text \<open>
  A small disk: the root directory has one block of entries (block 0) holding the entry
  \<^verbatim>\<open>a\<close> for inode 1, a file of two blocks, one direct (block 1) and one through the
  indirect block 2 (block 3).
\<close>

definition one_file_inode :: inode_t where
  "one_file_inode = new_file_inode \<lparr> i_size := 8192, num_direct := 1,
     direct_blocks := (\<lambda>_. 0) (0 := 1), indirect_block := 2 \<rparr>"

definition one_file_root :: inode_t where
  "one_file_root = root_inode \<lparr> i_size := 4096, num_direct := 1 \<rparr>"

definition one_file_fs :: fs where
  "one_file_fs =
     \<lparr> inode_segs = [Some \<lparr> ibitmap = set_bit_bm (set_bit_bm (\<lambda>_. 0) 0) 1,
                             inodes = (\<lambda>_. zero_inode) (0 := one_file_root, 1 := one_file_inode) \<rparr>],
       data_segs = [Some \<lparr> dbitmap = set_bit_bm (set_bit_bm (set_bit_bm
                                         (set_bit_bm (\<lambda>_. 0) 0) 1) 2) 3,
                            blocks = (\<lambda>_. zero_block)
                               (0 := block_of_entries (fresh_entries [97] 1),
                                2 := block_of_ints ((\<lambda>_. 0) (0 := 3))) \<rparr>],
       host_free = 0 \<rparr>"

text \<open>The disk that \<^verbatim>\<open>init_fs\<close> leaves in an empty host directory.\<close>

definition fresh_fs :: fs where
  "fresh_fs =
     \<lparr> inode_segs = [Some \<lparr> ibitmap = set_bit_bm (\<lambda>_. 0) 0,
                             inodes = (\<lambda>_. zero_inode) (0 := root_inode) \<rparr>],
       data_segs = [Some zero_data_seg], host_free = 0 \<rparr>"


text \<open>
  A disk whose root directory has one full block (block 0): fifteen live entries, named
  \<^verbatim>\<open>a\<close>, \<^verbatim>\<open>aa\<close>, \<^verbatim>\<open>aaa\<close>, ... for the empty files of the inodes 1 to 15.
\<close>

definition full_entries :: "nat \<Rightarrow> dir_entry_t" where
  "full_entries j = \<lparr> name = strncpy_name (replicate (Suc j) 97), inode_num = int j + 1 \<rparr>"

definition full_dir_fs :: fs where
  "full_dir_fs =
     \<lparr> inode_segs = [Some \<lparr> ibitmap = (\<lambda>k. if k < 2 then 255 else 0),
                             inodes = (\<lambda>i. if 1 \<le> i \<and> i \<le> 15 then new_file_inode else zero_inode)
                                        (0 := one_file_root) \<rparr>],
       data_segs = [Some \<lparr> dbitmap = set_bit_bm (\<lambda>_. 0) 0,
                            blocks = (\<lambda>_. zero_block) (0 := block_of_entries full_entries) \<rparr>],
       host_free = 0 \<rparr>"
section \<open>Bitmaps and the segment store\<close>

declare find_free_bit_loop.simps [simp del]
declare allocate_inode_loop.simps [simp del]
declare allocate_block_loop.simps [simp del]

lemma num_inodes_per_segment_254: "num_inodes_per_segment = 254"
  by (simp add: num_inodes_per_segment_def SEGMENT_SIZE_def BLOCK_SIZE_def
      sizeof_inode_t_def MAX_DIRECT_BLOCKS_def)

lemma blocks_per_segment_255: "blocks_per_segment = 255"
  by (simp add: blocks_per_segment_def SEGMENT_SIZE_def BLOCK_SIZE_def)

lemma seg_lookup_store_same: "seg_lookup (seg_store segs k v) k = Some v"
  by (simp add: seg_lookup_def seg_store_def nth_append)

lemma seg_lookup_store_other: "j \<noteq> k \<Longrightarrow> seg_lookup (seg_store segs k v) j = seg_lookup segs j"
  by (auto simp: seg_lookup_def seg_store_def nth_append nth_Cons' )

lemma find_free_bit_loop_neg:
  "find_free_bit_loop bm n i < 0 \<Longrightarrow>
     find_free_bit_loop bm n i = - 1 \<and> (\<forall>b. i \<le> b \<and> b < n \<longrightarrow> test_bit_bm bm b)"
proof (induction bm n i rule: find_free_bit_loop.induct)
  case (1 bm n i)
  show ?case
  proof (cases "i < n")
    case False
    then show ?thesis by (auto simp: find_free_bit_loop.simps[of bm n i])
  next
    case True
    show ?thesis
    proof (cases "bm (i div 8) AND push_bit (i mod 8) 1 = 0")
      case z: True
      with True have "find_free_bit_loop bm n i = int i"
        by (simp add: find_free_bit_loop.simps[of bm n i])
      with "1.prems" show ?thesis by simp
    next
      case nz: False
      with True have e: "find_free_bit_loop bm n i = find_free_bit_loop bm n (Suc i)"
        by (simp add: find_free_bit_loop.simps[of bm n i])
      from nz have t: "test_bit_bm bm i" by (simp add: test_bit_bm_def)
      from "1.IH"[OF True nz] "1.prems" e
      have ih: "find_free_bit_loop bm n (Suc i) = - 1"
        and all: "\<forall>b. Suc i \<le> b \<and> b < n \<longrightarrow> test_bit_bm bm b" by simp_all
      have "\<forall>b. i \<le> b \<and> b < n \<longrightarrow> test_bit_bm bm b"
      proof (intro allI impI)
        fix b assume b: "i \<le> b \<and> b < n"
        show "test_bit_bm bm b"
        proof (cases "b = i")
          case True then show ?thesis using t by simp
        next
          case False
          with b have "Suc i \<le> b \<and> b < n" by simp
          with all show ?thesis by blast
        qed
      qed
      with ih e show ?thesis by simp
    qed
  qed
qed

lemma find_free_bit_loop_pos:
  "0 \<le> find_free_bit_loop bm n i \<Longrightarrow>
     i \<le> nat (find_free_bit_loop bm n i) \<and> nat (find_free_bit_loop bm n i) < n
      \<and> \<not> test_bit_bm bm (nat (find_free_bit_loop bm n i))
      \<and> (\<forall>b. i \<le> b \<and> b < nat (find_free_bit_loop bm n i) \<longrightarrow> test_bit_bm bm b)"
proof (induction bm n i rule: find_free_bit_loop.induct)
  case (1 bm n i)
  show ?case
  proof (cases "i < n")
    case False
    with "1.prems" show ?thesis by (simp add: find_free_bit_loop.simps[of bm n i])
  next
    case True
    show ?thesis
    proof (cases "bm (i div 8) AND push_bit (i mod 8) 1 = 0")
      case z: True
      with True have r: "find_free_bit_loop bm n i = int i"
        by (simp add: find_free_bit_loop.simps[of bm n i])
      from z have "\<not> test_bit_bm bm i" by (simp add: test_bit_bm_def)
      with True show ?thesis unfolding r by auto
    next
      case nz: False
      with True have e: "find_free_bit_loop bm n i = find_free_bit_loop bm n (Suc i)"
        by (simp add: find_free_bit_loop.simps[of bm n i])
      from nz have t: "test_bit_bm bm i" by (simp add: test_bit_bm_def)
      define r where "r = nat (find_free_bit_loop bm n (Suc i))"
      from "1.IH"[OF True nz] "1.prems" e
      have ih: "Suc i \<le> r" "r < n" "\<not> test_bit_bm bm r"
        and all: "\<forall>b. Suc i \<le> b \<and> b < r \<longrightarrow> test_bit_bm bm b" by (simp_all add: r_def)
      have "\<forall>b. i \<le> b \<and> b < r \<longrightarrow> test_bit_bm bm b"
      proof (intro allI impI)
        fix b assume b: "i \<le> b \<and> b < r"
        show "test_bit_bm bm b"
        proof (cases "b = i")
          case True then show ?thesis using t by simp
        next
          case False
          with b have "Suc i \<le> b \<and> b < r" by simp
          with all show ?thesis by blast
        qed
      qed
      with ih show ?thesis unfolding e r_def[symmetric] by simp
    qed
  qed
qed

lemma test_bit_bm_bit: "test_bit_bm bm b = bit (bm (b div 8)) (b mod 8)"
proof -
  have "b mod 8 < 8" by simp
  then have "(2::byte) ^ (b mod 8) \<noteq> 0" by (simp add: word_size)
  then show ?thesis
    by (simp add: test_bit_bm_def  and_exp_eq_0_iff_not_bit push_bit_eq_mult)
qed

lemma test_bit_set_bit: "test_bit_bm (set_bit_bm bm j) i = (i = j \<or> test_bit_bm bm i)"
proof -
  have "i div 8 = j div 8 \<and> i mod 8 = j mod 8 \<longleftrightarrow> i = j"
    by (metis div_mult_mod_eq)
  then show ?thesis
    by (auto simp: test_bit_bm_bit set_bit_bm_def bit_or_iff bit_push_bit_iff bit_1_iff bit_exp_iff possible_bit_word)
qed


lemma test_bit_zero: "\<not> test_bit_bm (\<lambda>_. 0) i"
  by (simp add: test_bit_bm_def)

lemma inode_seg_of_put_same [simp]: "inode_seg_of (put_inode_seg k v s) k = Some v"
  by (simp add: inode_seg_of_def put_inode_seg_def seg_lookup_store_same)

lemma inode_seg_of_put_other [simp]: "j \<noteq> k \<Longrightarrow> inode_seg_of (put_inode_seg k v s) j = inode_seg_of s j"
  by (simp add: inode_seg_of_def put_inode_seg_def seg_lookup_store_other)

lemma data_seg_of_put_same [simp]: "data_seg_of (put_data_seg k v s) k = Some v"
  by (simp add: data_seg_of_def put_data_seg_def seg_lookup_store_same)

lemma data_seg_of_put_other [simp]: "j \<noteq> k \<Longrightarrow> data_seg_of (put_data_seg k v s) j = data_seg_of s j"
  by (simp add: data_seg_of_def put_data_seg_def seg_lookup_store_other)

lemma inode_seg_of_put_data [simp]: "inode_seg_of (put_data_seg k v s) j = inode_seg_of s j"
  by (simp add: inode_seg_of_def put_data_seg_def)

lemma data_seg_of_put_inode [simp]: "data_seg_of (put_inode_seg k v s) j = data_seg_of s j"
  by (simp add: data_seg_of_def put_inode_seg_def)

lemma host_free_put [simp]:
  "host_free (put_inode_seg k v s) = host_free s" "host_free (put_data_seg k w s) = host_free s"
  by (simp_all add: put_inode_seg_def put_data_seg_def)

lemma inode_seg_of_host_free [simp]: "inode_seg_of (s\<lparr>host_free := h\<rparr>) j = inode_seg_of s j"
  by (simp add: inode_seg_of_def)

lemma data_seg_of_host_free [simp]: "data_seg_of (s\<lparr>host_free := h\<rparr>) j = data_seg_of s j"
  by (simp add: data_seg_of_def)

lemma open_inode_seg_present:
  "inode_seg_of s n = Some seg \<Longrightarrow> open_or_create_inode_seg n s = Some (True, s)"
  by (simp add: open_or_create_inode_seg_def)

lemma open_inode_seg_absent:
  assumes "inode_seg_of s n = None" "0 < host_free s"
  shows "\<exists>s1 seg. open_or_create_inode_seg n s = Some (True, s1) \<and> inode_seg_of s1 n = Some seg
           \<and> ibitmap seg = (if n = 0 then set_bit_bm (\<lambda>_. 0) 0 else (\<lambda>_. 0))
           \<and> (\<forall>j. j \<noteq> n \<longrightarrow> inode_seg_of s1 j = inode_seg_of s j)
           \<and> (\<forall>j. data_seg_of s1 j = data_seg_of s j)
           \<and> host_free s1 = host_free s - 1"
  using assms
  by (cases "n = 0")
    (auto simp: open_or_create_inode_seg_def create_new_segment_def Let_def write_inode_def
      ROOT_DIR_INODE_def zero_inode_seg_def num_inodes_per_segment_254)

lemma open_inode_seg_absent_fail:
  assumes "inode_seg_of s n = None" "host_free s = 0"
  shows "open_or_create_inode_seg n s = Some (False, s)"
  using assms by (simp add: open_or_create_inode_seg_def create_new_segment_def)

lemma find_free_bit_found:
  assumes "b < n" "\<not> test_bit_bm bm b"
  shows "0 \<le> find_free_bit bm n"
proof (rule ccontr)
  assume "\<not> 0 \<le> find_free_bit bm n"
  then have "find_free_bit_loop bm n 0 < 0" by (simp add: find_free_bit_def)
  from find_free_bit_loop_neg[OF this] assms show False by simp
qed

lemma find_free_bit_full:
  assumes "find_free_bit bm n < 0"
  shows "\<forall>b<n. test_bit_bm bm b"
  using find_free_bit_loop_neg[of bm n 0] assms by (simp add: find_free_bit_def)

lemma find_free_bit_lowest:
  assumes "0 \<le> find_free_bit bm n"
  shows "nat (find_free_bit bm n) < n \<and> \<not> test_bit_bm bm (nat (find_free_bit bm n))
         \<and> (\<forall>b<nat (find_free_bit bm n). test_bit_bm bm b)"
  using find_free_bit_loop_pos[of bm n 0] assms by (simp add: find_free_bit_def)

lemma fresh_inode_bitmap_free:
  "0 \<le> find_free_bit (if n = (0::nat) then set_bit_bm (\<lambda>_. 0) 0 else (\<lambda>_. 0)) num_inodes_per_segment"
  by (rule find_free_bit_found[of 1])
     (simp_all add: num_inodes_per_segment_254 test_bit_set_bit test_bit_zero)

lemma allocate_inode_loop_spec:
  assumes "allocate_inode_loop n s = Some (r, s')" "0 < host_free s"
  shows "\<exists>k j s1 seg. n \<le> k
     \<and> (\<forall>i. n \<le> i \<and> i < k \<longrightarrow>
           (\<exists>sg. inode_seg_of s i = Some sg \<and> (\<forall>b<num_inodes_per_segment. test_bit_bm (ibitmap sg) b)))
     \<and> open_or_create_inode_seg k s = Some (True, s1) \<and> inode_seg_of s1 k = Some seg
     \<and> j < num_inodes_per_segment \<and> \<not> test_bit_bm (ibitmap seg) j
     \<and> (\<forall>b<j. test_bit_bm (ibitmap seg) b)
     \<and> r = int k * int num_inodes_per_segment + int j
     \<and> s' = put_inode_seg k (seg\<lparr>ibitmap := set_bit_bm (ibitmap seg) j\<rparr>) s1"
  using assms
proof (induction n s rule: allocate_inode_loop.induct)
  case (1 n s)
  obtain s1 seg where oc: "open_or_create_inode_seg n s = Some (True, s1)"
    and sg: "inode_seg_of s1 n = Some seg"
    and fresh: "inode_seg_of s n = None \<longrightarrow> 0 \<le> find_free_bit (ibitmap seg) num_inodes_per_segment"
    and same: "inode_seg_of s n \<noteq> None \<longrightarrow> s1 = s"
  proof (cases "inode_seg_of s n")
    case None
    from open_inode_seg_absent[OF None "1.prems"(2)] obtain s1 seg where
      "open_or_create_inode_seg n s = Some (True, s1)" "inode_seg_of s1 n = Some seg"
      "ibitmap seg = (if n = 0 then set_bit_bm (\<lambda>_. 0) 0 else (\<lambda>_. 0))" by blast
    with None fresh_inode_bitmap_free[of n] that show ?thesis by simp
  next
    case (Some sg)
    with open_inode_seg_present[OF Some] that show ?thesis by simp
  qed
  let ?f = "find_free_bit (ibitmap seg) num_inodes_per_segment"
  show ?case
  proof (cases "0 \<le> ?f")
    case True
    from "1.prems"(1) oc sg True have r: "r = int n * int num_inodes_per_segment + ?f"
      and s': "s' = put_inode_seg n (seg\<lparr>ibitmap := set_bit_bm (ibitmap seg) (nat ?f)\<rparr>) s1"
      by (auto simp: allocate_inode_loop.simps[of n s] Let_def split: if_splits)
    from find_free_bit_lowest[OF True] True r s' oc sg show ?thesis
      by (rule_tac x=n in exI, rule_tac x="nat ?f" in exI, rule_tac x=s1 in exI, rule_tac x=seg in exI) auto
  next
    case False
    with fresh same have eq: "s1 = s" by auto
    from "1.prems"(1) oc sg False have rec: "allocate_inode_loop (Suc n) s1 = Some (r, s')"
      by (simp add: allocate_inode_loop.simps[of n s] Let_def)
    from False have full: "\<forall>b<num_inodes_per_segment. test_bit_bm (ibitmap seg) b"
      using find_free_bit_full[of "ibitmap seg" num_inodes_per_segment] by simp
    from "1.IH"[OF oc refl refl sg refl refl _ rec] False "1.prems"(2) eq
    obtain k j s2 seg2 where k: "Suc n \<le> k"
      and all: "\<forall>i. Suc n \<le> i \<and> i < k \<longrightarrow>
           (\<exists>sg. inode_seg_of s i = Some sg \<and> (\<forall>b<num_inodes_per_segment. test_bit_bm (ibitmap sg) b))"
      and rest: "open_or_create_inode_seg k s = Some (True, s2)" "inode_seg_of s2 k = Some seg2"
         "j < num_inodes_per_segment" "\<not> test_bit_bm (ibitmap seg2) j"
         "\<forall>b<j. test_bit_bm (ibitmap seg2) b"
         "r = int k * int num_inodes_per_segment + int j"
         "s' = put_inode_seg k (seg2\<lparr>ibitmap := set_bit_bm (ibitmap seg2) j\<rparr>) s2"
      by auto
    have "\<forall>i. n \<le> i \<and> i < k \<longrightarrow>
           (\<exists>sg. inode_seg_of s i = Some sg \<and> (\<forall>b<num_inodes_per_segment. test_bit_bm (ibitmap sg) b))"
    proof (intro allI impI)
      fix i assume i: "n \<le> i \<and> i < k"
      show "\<exists>sg. inode_seg_of s i = Some sg \<and> (\<forall>b<num_inodes_per_segment. test_bit_bm (ibitmap sg) b)"
      proof (cases "i = n")
        case True
        with sg eq full show ?thesis by auto
      next
        case False
        with i have "Suc n \<le> i \<and> i < k" by simp
        with all show ?thesis by blast
      qed
    qed
    with k rest show ?thesis
      by (rule_tac x=k in exI, rule_tac x=j in exI, rule_tac x=s2 in exI, rule_tac x=seg2 in exI) simp
  qed
qed

section \<open>Inode allocation\<close>

lemma allocate_inode_loop_total:
  assumes "0 < host_free s"
    and "int (max n (length (inode_segs s))) * int num_inodes_per_segment
           + int num_inodes_per_segment \<le> INT_MAX"
  shows "\<exists>r s'. allocate_inode_loop n s = Some (r, s')"
  using assms
proof (induction n s rule: allocate_inode_loop.induct)
  case (1 n s)
  obtain s1 seg where oc: "open_or_create_inode_seg n s = Some (True, s1)"
    and sg: "inode_seg_of s1 n = Some seg"
    and fresh: "inode_seg_of s n = None \<longrightarrow> 0 \<le> find_free_bit (ibitmap seg) num_inodes_per_segment"
    and same: "inode_seg_of s n \<noteq> None \<longrightarrow> s1 = s"
  proof (cases "inode_seg_of s n")
    case None
    from open_inode_seg_absent[OF None "1.prems"(1)] obtain s1 seg where
      "open_or_create_inode_seg n s = Some (True, s1)" "inode_seg_of s1 n = Some seg"
      "ibitmap seg = (if n = 0 then set_bit_bm (\<lambda>_. 0) 0 else (\<lambda>_. 0))" by blast
    with None fresh_inode_bitmap_free[of n] that show ?thesis by simp
  next
    case (Some sg)
    with open_inode_seg_present[OF Some] that show ?thesis by simp
  qed
  let ?f = "find_free_bit (ibitmap seg) num_inodes_per_segment"
  show ?case
  proof (cases "0 \<le> ?f")
    case True
    from find_free_bit_lowest[OF True] have "?f < int num_inodes_per_segment" by linarith
    moreover have "int n * int num_inodes_per_segment
        \<le> int (max n (length (inode_segs s))) * int num_inodes_per_segment"
      by (intro mult_right_mono) simp_all
    ultimately have "\<not> int n * int num_inodes_per_segment + ?f > INT_MAX"
      using "1.prems"(2) by linarith
    with oc sg True show ?thesis
      by (simp add: allocate_inode_loop.simps[of n s] Let_def)
  next
    case False
    with fresh same have eq: "s1 = s" and ex: "inode_seg_of s n \<noteq> None" by auto
    from ex have "n < length (inode_segs s)"
      by (auto simp: inode_seg_of_def seg_lookup_def split: if_splits)
    then have "max (Suc n) (length (inode_segs s)) = max n (length (inode_segs s))" by simp
    with "1.IH"[OF oc refl refl sg refl refl] False "1.prems" eq
    have "\<exists>r s'. allocate_inode_loop (Suc n) s1 = Some (r, s')" by simp
    with oc sg False show ?thesis
      by (simp add: allocate_inode_loop.simps[of n s] Let_def)
  qed
qed

text \<open>
  C6. \<^verbatim>\<open>allocate_inode\<close> always returns an inode number when the host can create a segment
  (and the number fits an \<^verbatim>\<open>int\<close>): the segments below the chosen segment \<open>k\<close> exist and have
  every bit of \<open>[0, records_per_segment)\<close> set, segment \<open>k\<close> is opened or created, \<open>j\<close> is
  its lowest clear bit, the returned number is \<open>k * records_per_segment + j\<close>, and the new
  state is the old one with that one bit set in the stored bitmap of segment \<open>k\<close>.
\<close>

theorem allocate_inode_policy:
  assumes "0 < host_free s"
    and "int (length (inode_segs s)) * int num_inodes_per_segment
           + int num_inodes_per_segment \<le> INT_MAX"
  shows "\<exists>r s' k j s1 seg. allocate_inode s = Some (r, s') \<and> 0 \<le> r
     \<and> (\<forall>i<k. \<exists>sg. inode_seg_of s i = Some sg
                 \<and> (\<forall>b<num_inodes_per_segment. test_bit_bm (ibitmap sg) b))
     \<and> open_or_create_inode_seg k s = Some (True, s1) \<and> inode_seg_of s1 k = Some seg
     \<and> j < num_inodes_per_segment \<and> \<not> test_bit_bm (ibitmap seg) j
     \<and> (\<forall>b<j. test_bit_bm (ibitmap seg) b)
     \<and> r = int k * int num_inodes_per_segment + int j
     \<and> s' = put_inode_seg k (seg\<lparr>ibitmap := set_bit_bm (ibitmap seg) j\<rparr>) s1"
proof -
  from allocate_inode_loop_total[of s 0] assms obtain r s'
    where a: "allocate_inode_loop 0 s = Some (r, s')" by auto
  from allocate_inode_loop_spec[OF a assms(1)] obtain k j s1 seg where
    "\<forall>i. 0 \<le> i \<and> i < k \<longrightarrow>
           (\<exists>sg. inode_seg_of s i = Some sg \<and> (\<forall>b<num_inodes_per_segment. test_bit_bm (ibitmap sg) b))"
    "open_or_create_inode_seg k s = Some (True, s1)" "inode_seg_of s1 k = Some seg"
    "j < num_inodes_per_segment" "\<not> test_bit_bm (ibitmap seg) j"
    "\<forall>b<j. test_bit_bm (ibitmap seg) b"
    "r = int k * int num_inodes_per_segment + int j"
    "s' = put_inode_seg k (seg\<lparr>ibitmap := set_bit_bm (ibitmap seg) j\<rparr>) s1"
    by blast
  with a show ?thesis
    unfolding allocate_inode_def
    by (rule_tac x=r in exI, rule_tac x=s' in exI, rule_tac x=k in exI, rule_tac x=j in exI,
        rule_tac x=s1 in exI, rule_tac x=seg in exI) simp
qed

theorem allocate_inode_policy_witness:
  "0 < host_free \<lparr>inode_segs = [], data_segs = [], host_free = 1\<rparr>
   \<and> int (length (inode_segs \<lparr>inode_segs = [], data_segs = [], host_free = 1\<rparr>))
        * int num_inodes_per_segment + int num_inodes_per_segment \<le> INT_MAX
   \<and> (\<exists>s'. allocate_inode \<lparr>inode_segs = [], data_segs = [], host_free = 1\<rparr> = Some (1, s'))"
proof -
  let ?s = "\<lparr>inode_segs = [], data_segs = [], host_free = 1\<rparr>"
  have h1: "0 < host_free ?s" by simp
  have h2: "int (length (inode_segs ?s)) * int num_inodes_per_segment
              + int num_inodes_per_segment \<le> INT_MAX"
    by (simp add: num_inodes_per_segment_254 INT_MAX_def)
  from allocate_inode_policy[OF h1 h2] obtain r s' k j s1 seg where
    a: "allocate_inode ?s = Some (r, s')"
    and full: "\<forall>i<k. \<exists>sg. inode_seg_of ?s i = Some sg
                 \<and> (\<forall>b<num_inodes_per_segment. test_bit_bm (ibitmap sg) b)"
    and oc: "open_or_create_inode_seg k ?s = Some (True, s1)" "inode_seg_of s1 k = Some seg"
    and j: "j < num_inodes_per_segment" "\<not> test_bit_bm (ibitmap seg) j"
       "\<forall>b<j. test_bit_bm (ibitmap seg) b"
    and r: "r = int k * int num_inodes_per_segment + int j"
    by blast
  have none: "\<And>i. inode_seg_of ?s i = None" by (simp add: inode_seg_of_def seg_lookup_def)
  have k0: "k = 0"
  proof (rule ccontr)
    assume "k \<noteq> 0"
    then have "0 < k" by simp
    with full none show False by fastforce
  qed
  from open_inode_seg_absent[OF none[of 0] h1] oc k0
  have bm: "ibitmap seg = set_bit_bm (\<lambda>_. 0) 0" by auto
  have "j = 1"
  proof -
    from j(2) bm have "j \<noteq> 0" by (auto simp: test_bit_set_bit)
    moreover have "\<not> 1 < j"
    proof
      assume "1 < j"
      with j(3) have "test_bit_bm (ibitmap seg) 1" by blast
      with bm show False by (simp add: test_bit_set_bit test_bit_zero)
    qed
    ultimately show ?thesis by simp
  qed
  with r k0 a h1 h2 show ?thesis by simp
qed

section \<open>Block allocation\<close>

lemma open_data_seg_present:
  "data_seg_of s n = Some seg \<Longrightarrow> open_or_create_data_seg n s = Some (True, s)"
  by (simp add: open_or_create_data_seg_def)

lemma open_data_seg_absent:
  assumes "data_seg_of s n = None" "0 < host_free s"
  shows "open_or_create_data_seg n s
           = Some (True, put_data_seg n zero_data_seg (s\<lparr>host_free := host_free s - 1\<rparr>))"
  using assms
  by (auto simp: open_or_create_data_seg_def create_new_segment_def Let_def)

lemma open_data_seg_absent_fail:
  assumes "data_seg_of s n = None" "host_free s = 0"
  shows "open_or_create_data_seg n s = Some (False, s)"
  using assms by (simp add: open_or_create_data_seg_def create_new_segment_def)

lemma find_free_bit_zero: "0 < n \<Longrightarrow> find_free_bit (\<lambda>_. 0) n = 0"
  by (simp add: find_free_bit_def find_free_bit_loop.simps[of _ n 0])

text \<open>The three outcomes of the allocation loop.\<close>

lemma allocate_block_loop_cases:
  assumes "allocate_block_loop n s = Some (r, s')"
  shows "(r = - 1 \<and> s' = s \<and> host_free s = 0) \<or>
     (\<exists>k j s1 seg. n \<le> k
        \<and> (\<forall>i. n \<le> i \<and> i < k \<longrightarrow>
           (\<exists>sg. data_seg_of s i = Some sg \<and> (\<forall>b<blocks_per_segment. test_bit_bm (dbitmap sg) b)))
        \<and> open_or_create_data_seg k s = Some (True, s1) \<and> data_seg_of s1 k = Some seg
        \<and> j < blocks_per_segment \<and> \<not> test_bit_bm (dbitmap seg) j
        \<and> (\<forall>b<j. test_bit_bm (dbitmap seg) b)
        \<and> r = int k * int blocks_per_segment + int j \<and> r \<le> INT_MAX
        \<and> s' = put_data_seg k (seg\<lparr>dbitmap := set_bit_bm (dbitmap seg) j\<rparr>) s1)"
  using assms
proof (induction n s rule: allocate_block_loop.induct)
  case (1 n s)
  show ?case
  proof (cases "data_seg_of s n = None \<and> host_free s = 0")
    case True
    with "1.prems" open_data_seg_absent_fail[of s n] show ?thesis
      by (simp add: allocate_block_loop.simps[of n s])
  next
    case nf: False
    obtain s1 seg where oc: "open_or_create_data_seg n s = Some (True, s1)"
      and sg: "data_seg_of s1 n = Some seg"
      and fresh: "data_seg_of s n = None \<longrightarrow> 0 \<le> find_free_bit (dbitmap seg) blocks_per_segment"
      and same: "data_seg_of s n \<noteq> None \<longrightarrow> s1 = s"
    proof (cases "data_seg_of s n")
      case None
      with nf have h: "0 < host_free s" by simp
      from open_data_seg_absent[OF None h] None that[of _ zero_data_seg] show ?thesis
        by (simp add: zero_data_seg_def find_free_bit_zero blocks_per_segment_255)
    next
      case (Some sg)
      with open_data_seg_present[OF Some] that show ?thesis by simp
    qed
    let ?f = "find_free_bit (dbitmap seg) blocks_per_segment"
    show ?thesis
    proof (cases "0 \<le> ?f")
      case True
      from "1.prems"(1) oc sg True have r: "r = int n * int blocks_per_segment + ?f"
        and le: "r \<le> INT_MAX"
        and s': "s' = put_data_seg n (seg\<lparr>dbitmap := set_bit_bm (dbitmap seg) (nat ?f)\<rparr>) s1"
        by (auto simp: allocate_block_loop.simps[of n s] Let_def split: if_splits)
      from find_free_bit_lowest[OF True] True r s' le oc sg have
        "\<exists>k j s1 seg. n \<le> k
        \<and> (\<forall>i. n \<le> i \<and> i < k \<longrightarrow>
           (\<exists>sg. data_seg_of s i = Some sg \<and> (\<forall>b<blocks_per_segment. test_bit_bm (dbitmap sg) b)))
        \<and> open_or_create_data_seg k s = Some (True, s1) \<and> data_seg_of s1 k = Some seg
        \<and> j < blocks_per_segment \<and> \<not> test_bit_bm (dbitmap seg) j
        \<and> (\<forall>b<j. test_bit_bm (dbitmap seg) b)
        \<and> r = int k * int blocks_per_segment + int j \<and> r \<le> INT_MAX
        \<and> s' = put_data_seg k (seg\<lparr>dbitmap := set_bit_bm (dbitmap seg) j\<rparr>) s1"
        by (rule_tac x=n in exI, rule_tac x="nat ?f" in exI, rule_tac x=s1 in exI, rule_tac x=seg in exI) auto
      then show ?thesis by blast
    next
      case False
      with fresh same have eq: "s1 = s" by auto
      from "1.prems"(1) oc sg False have rec: "allocate_block_loop (Suc n) s1 = Some (r, s')"
        by (simp add: allocate_block_loop.simps[of n s] Let_def)
      from False have full: "\<forall>b<blocks_per_segment. test_bit_bm (dbitmap seg) b"
        using find_free_bit_full[of "dbitmap seg" blocks_per_segment] by simp
      from "1.IH"[OF oc refl refl sg refl refl _ rec] False eq
      consider (fail) "r = - 1 \<and> s' = s \<and> host_free s = 0"
        | (ok) k j s2 seg2 where "Suc n \<le> k"
          "\<forall>i. Suc n \<le> i \<and> i < k \<longrightarrow>
             (\<exists>sg. data_seg_of s i = Some sg \<and> (\<forall>b<blocks_per_segment. test_bit_bm (dbitmap sg) b))"
          "open_or_create_data_seg k s = Some (True, s2)" "data_seg_of s2 k = Some seg2"
          "j < blocks_per_segment" "\<not> test_bit_bm (dbitmap seg2) j"
          "\<forall>b<j. test_bit_bm (dbitmap seg2) b"
          "r = int k * int blocks_per_segment + int j" "r \<le> INT_MAX"
          "s' = put_data_seg k (seg2\<lparr>dbitmap := set_bit_bm (dbitmap seg2) j\<rparr>) s2"
        by auto
      then show ?thesis
      proof cases
        case fail
        then show ?thesis by simp
      next
        case ok
        have "\<forall>i. n \<le> i \<and> i < k \<longrightarrow>
           (\<exists>sg. data_seg_of s i = Some sg \<and> (\<forall>b<blocks_per_segment. test_bit_bm (dbitmap sg) b))"
        proof (intro allI impI)
          fix i assume i: "n \<le> i \<and> i < k"
          show "\<exists>sg. data_seg_of s i = Some sg \<and> (\<forall>b<blocks_per_segment. test_bit_bm (dbitmap sg) b)"
          proof (cases "i = n")
            case True
            with sg eq full show ?thesis by auto
          next
            case False
            with i have "Suc n \<le> i \<and> i < k" by simp
            with ok(2) show ?thesis by blast
          qed
        qed
        with ok have
          "\<exists>k j s1 seg. n \<le> k
          \<and> (\<forall>i. n \<le> i \<and> i < k \<longrightarrow>
           (\<exists>sg. data_seg_of s i = Some sg \<and> (\<forall>b<blocks_per_segment. test_bit_bm (dbitmap sg) b)))
          \<and> open_or_create_data_seg k s = Some (True, s1) \<and> data_seg_of s1 k = Some seg
          \<and> j < blocks_per_segment \<and> \<not> test_bit_bm (dbitmap seg) j
          \<and> (\<forall>b<j. test_bit_bm (dbitmap seg) b)
          \<and> r = int k * int blocks_per_segment + int j \<and> r \<le> INT_MAX
          \<and> s' = put_data_seg k (seg\<lparr>dbitmap := set_bit_bm (dbitmap seg) j\<rparr>) s1"
          by (rule_tac x=k in exI, rule_tac x=j in exI, rule_tac x=s2 in exI, rule_tac x=seg2 in exI) simp
        then show ?thesis by blast
      qed
    qed
  qed
qed

lemma inode_segs_put_data [simp]: "inode_segs (put_data_seg k v s) = inode_segs s"
  by (simp add: put_data_seg_def)

lemma data_segs_put_inode [simp]: "data_segs (put_inode_seg k v s) = data_segs s"
  by (simp add: put_inode_seg_def)

lemma allocate_block_ok:
  assumes "allocate_block s = Some (b, s')" "b \<noteq> - 1"
  shows "\<exists>k j. b = int k * int blocks_per_segment + int j \<and> j < blocks_per_segment \<and> b \<le> INT_MAX
     \<and> (\<forall>i<k. \<exists>sg. data_seg_of s i = Some sg \<and> (\<forall>m<blocks_per_segment. test_bit_bm (dbitmap sg) m))
     \<and> \<not> test_bit_bm (dbitmap (dseg s k)) j \<and> (\<forall>m<j. test_bit_bm (dbitmap (dseg s k)) m)
     \<and> data_seg_of s' k = Some ((dseg s k)\<lparr>dbitmap := set_bit_bm (dbitmap (dseg s k)) j\<rparr>)
     \<and> (\<forall>i. i \<noteq> k \<longrightarrow> data_seg_of s' i = data_seg_of s i)
     \<and> inode_segs s' = inode_segs s
     \<and> host_free s' = (if data_seg_of s k = None then host_free s - 1 else host_free s)"
proof -
  from allocate_block_loop_cases[of 0 s b s'] assms obtain k j s1 seg where
    full: "\<forall>i. 0 \<le> i \<and> i < k \<longrightarrow>
           (\<exists>sg. data_seg_of s i = Some sg \<and> (\<forall>b<blocks_per_segment. test_bit_bm (dbitmap sg) b))"
    and oc: "open_or_create_data_seg k s = Some (True, s1)" and sg: "data_seg_of s1 k = Some seg"
    and j: "j < blocks_per_segment" "\<not> test_bit_bm (dbitmap seg) j"
      "\<forall>b<j. test_bit_bm (dbitmap seg) b"
    and b: "b = int k * int blocks_per_segment + int j" "b \<le> INT_MAX"
    and s': "s' = put_data_seg k (seg\<lparr>dbitmap := set_bit_bm (dbitmap seg) j\<rparr>) s1"
    unfolding allocate_block_def by auto
  have s1: "seg = dseg s k \<and> (\<forall>i. i \<noteq> k \<longrightarrow> data_seg_of s1 i = data_seg_of s i)
      \<and> inode_segs s1 = inode_segs s
      \<and> host_free s1 = (if data_seg_of s k = None then host_free s - 1 else host_free s)"
  proof (cases "data_seg_of s k")
    case None
    show ?thesis
    proof (cases "host_free s = 0")
      case True
      from open_data_seg_absent_fail[OF None True] oc show ?thesis by simp
    next
      case False
      then have "0 < host_free s" by simp
      from open_data_seg_absent[OF None this] oc sg None show ?thesis
        by (auto simp: dseg_def)
    qed
  next
    case (Some a)
    from open_data_seg_present[OF Some] oc sg Some show ?thesis by (auto simp: dseg_def)
  qed
  from full have full': "\<forall>i<k. \<exists>sg. data_seg_of s i = Some sg \<and> (\<forall>m<blocks_per_segment. test_bit_bm (dbitmap sg) m)"
    by simp
  from s1 j b s' full' show ?thesis
    by (rule_tac x=k in exI, rule_tac x=j in exI) simp
qed

lemma allocate_block_fail:
  assumes "allocate_block s = Some (- 1, s')"
  shows "s' = s"
  using allocate_block_loop_cases[of 0 s "- 1" s'] assms
  unfolding allocate_block_def by (auto simp: blocks_per_segment_255)

lemma block_index_unique:
  assumes "j < blocks_per_segment" "0 \<le> c"
  shows "(nat c div blocks_per_segment = k \<and> nat c mod blocks_per_segment = j)
           \<longleftrightarrow> c = int k * int blocks_per_segment + int j"
proof
  assume a: "nat c div blocks_per_segment = k \<and> nat c mod blocks_per_segment = j"
  have "nat c = (nat c div blocks_per_segment) * blocks_per_segment + nat c mod blocks_per_segment"
    by simp
  with a have "nat c = k * blocks_per_segment + j" by simp
  with assms(2) show "c = int k * int blocks_per_segment + int j"
    by (metis int_nat_eq of_nat_add of_nat_mult)
next
  assume "c = int k * int blocks_per_segment + int j"
  then have "nat c = k * blocks_per_segment + j"
    by (metis nat_int of_nat_add of_nat_mult)
  with assms(1) show "nat c div blocks_per_segment = k \<and> nat c mod blocks_per_segment = j"
    by simp
qed

text \<open>What a successful allocation does to the observations of a state.\<close>

lemma allocate_block_effect:
  assumes "allocate_block s = Some (b, s')" "b \<noteq> - 1"
  shows "0 \<le> b" "b \<le> INT_MAX" "\<not> block_allocated s b" "block_allocated s' b"
    "\<And>c. c \<noteq> b \<Longrightarrow> block_allocated s' c = block_allocated s c"
    "\<And>c. 0 \<le> c \<Longrightarrow> c < b \<Longrightarrow> block_allocated s c"
    "\<And>c. read_block c s \<noteq> Some None \<Longrightarrow> read_block c s' = read_block c s"
    "read_block b s' \<noteq> Some None"
    "inode_segs s' = inode_segs s"
    "host_free s' \<le> host_free s"
proof -
  from allocate_block_ok[OF assms] obtain k j where
    b: "b = int k * int blocks_per_segment + int j" and j: "j < blocks_per_segment"
    and le: "b \<le> INT_MAX"
    and full: "\<forall>i<k. \<exists>sg. data_seg_of s i = Some sg \<and> (\<forall>m<blocks_per_segment. test_bit_bm (dbitmap sg) m)"
    and clr: "\<not> test_bit_bm (dbitmap (dseg s k)) j" and low: "\<forall>m<j. test_bit_bm (dbitmap (dseg s k)) m"
    and new: "data_seg_of s' k = Some ((dseg s k)\<lparr>dbitmap := set_bit_bm (dbitmap (dseg s k)) j\<rparr>)"
    and oth: "\<forall>i. i \<noteq> k \<longrightarrow> data_seg_of s' i = data_seg_of s i"
    and ino: "inode_segs s' = inode_segs s"
    and hf: "host_free s' = (if data_seg_of s k = None then host_free s - 1 else host_free s)"
    by blast
  show b0: "0 \<le> b" using b by simp
  show "b \<le> INT_MAX" by (rule le)
  from block_index_unique[OF j b0, of k] b
  have ix: "nat b div blocks_per_segment = k" "nat b mod blocks_per_segment = j" by simp_all
  show "\<not> block_allocated s b"
    using clr ix by (auto simp: block_allocated_def dseg_def split: option.splits)
  show "block_allocated s' b"
    using new ix b0 by (simp add: block_allocated_def test_bit_set_bit)
  show "block_allocated s' c = block_allocated s c" if "c \<noteq> b" for c
  proof (cases "0 \<le> c")
    case False
    then show ?thesis by (simp add: block_allocated_def)
  next
    case True
    show ?thesis
    proof (cases "nat c div blocks_per_segment = k")
      case False
      with oth show ?thesis by (simp add: block_allocated_def)
    next
      case k: True
      with that block_index_unique[OF j True, of k] b
      have "nat c mod blocks_per_segment \<noteq> j" by auto
      with k new True show ?thesis
        by (auto simp: block_allocated_def test_bit_set_bit dseg_def zero_data_seg_def test_bit_zero
            split: option.splits)
    qed
  qed
  show "block_allocated s c" if "0 \<le> c" "c < b" for c
  proof -
    let ?i = "nat c div blocks_per_segment" and ?m = "nat c mod blocks_per_segment"
    have m: "?m < blocks_per_segment" by (simp add: blocks_per_segment_255)
    have c: "c = int ?i * int blocks_per_segment + int ?m"
      using block_index_unique[OF m that(1), of ?i] by simp
    have "?i \<le> k"
    proof (rule ccontr)
      assume "\<not> ?i \<le> k"
      then have "k + 1 \<le> ?i" by simp
      then have "(int k + 1) * int blocks_per_segment \<le> int ?i * int blocks_per_segment"
        by (intro mult_right_mono) simp_all
      with c b j that(2) show False by (simp add: algebra_simps)
    qed
    show ?thesis
    proof (cases "?i < k")
      case True
      with full m that(1) show ?thesis by (auto simp: block_allocated_def)
    next
      case False
      with \<open>?i \<le> k\<close> have ik: "?i = k" by simp
      with c b that(2) have "?m < j" by simp
      with low have t: "test_bit_bm (dbitmap (dseg s k)) ?m" by simp
      then have "data_seg_of s k \<noteq> None"
        by (cases "data_seg_of s k") (auto simp: dseg_def zero_data_seg_def test_bit_zero)
      with t ik that(1) show ?thesis by (auto simp: block_allocated_def dseg_def)
    qed
  qed
  show "read_block c s' = read_block c s" if "read_block c s \<noteq> Some None" for c
  proof (cases "nat c div blocks_per_segment = k")
    case False
    with oth show ?thesis by (simp add: read_block_def)
  next
    case True
    with that new show ?thesis
      by (auto simp: read_block_def Let_def dseg_def split: option.splits if_splits)
  qed
  show "read_block b s' \<noteq> Some None"
    using new ix b0 by (simp add: read_block_def)
  show "inode_segs s' = inode_segs s" by (rule ino)
  show "host_free s' \<le> host_free s" using hf by simp
qed

lemma block_index_eq:
  assumes "0 \<le> b" "0 \<le> c"
    "nat c div blocks_per_segment = nat b div blocks_per_segment"
    "nat c mod blocks_per_segment = nat b mod blocks_per_segment"
  shows "c = b"
proof -
  have "nat c = nat b" using assms(3,4) by (metis div_mult_mod_eq)
  with assms(1,2) show ?thesis by simp
qed

lemma write_block_effect:
  assumes "write_block b buf s = Some (rc, s')"
  shows "0 \<le> b" "rc = 0 \<or> (rc = - 1 \<and> s' = s)"
    "rc = 0 \<Longrightarrow> read_block b s' = Some (Some buf)"
    "\<And>c. c \<noteq> b \<Longrightarrow> read_block c s' = read_block c s"
    "\<And>c. block_allocated s' c = block_allocated s c"
    "\<And>c. (read_block c s' = Some None) = (read_block c s = Some None)"
    "inode_segs s' = inode_segs s" "host_free s' = host_free s"
    "read_block b s \<noteq> Some None \<Longrightarrow> rc = 0"
proof -
  show b0: "0 \<le> b" using assms by (auto simp: write_block_def split: if_splits)
  let ?k = "nat b div blocks_per_segment" and ?j = "nat b mod blocks_per_segment"
  show "rc = 0 \<or> (rc = - 1 \<and> s' = s)"
    using assms by (auto simp: write_block_def Let_def split: if_splits option.splits)
  show "read_block b s' = Some (Some buf)" if "rc = 0"
    using assms that by (auto simp: write_block_def read_block_def Let_def split: if_splits option.splits)
  show "read_block c s' = read_block c s" if "c \<noteq> b" for c
  proof (cases "0 \<le> c")
    case False then show ?thesis by (simp add: read_block_def)
  next
    case True
    show ?thesis
    proof (cases "nat c div blocks_per_segment = ?k")
      case False
      with assms show ?thesis
        by (auto simp: write_block_def read_block_def Let_def split: if_splits option.splits)
    next
      case k: True
      with that block_index_eq[OF b0 True] have "nat c mod blocks_per_segment \<noteq> ?j" by auto
      with k assms show ?thesis
        by (auto simp: write_block_def read_block_def Let_def split: if_splits option.splits)
    qed
  qed
  show "block_allocated s' c = block_allocated s c" for c
  proof (cases "nat c div blocks_per_segment = ?k")
    case False
    with assms show ?thesis
      by (auto simp: write_block_def block_allocated_def Let_def split: if_splits option.splits)
  next
    case True
    with assms show ?thesis
      by (auto simp: write_block_def block_allocated_def Let_def split: if_splits option.splits)
  qed
  show "(read_block c s' = Some None) = (read_block c s = Some None)" for c
  proof (cases "nat c div blocks_per_segment = ?k")
    case False
    with assms show ?thesis
      by (auto simp: write_block_def read_block_def Let_def split: if_splits option.splits)
  next
    case True
    with assms show ?thesis
      by (auto simp: write_block_def read_block_def Let_def split: if_splits option.splits)
  qed
  show "inode_segs s' = inode_segs s" "host_free s' = host_free s"
    using assms by (auto simp: write_block_def Let_def split: if_splits option.splits)
  show "rc = 0" if "read_block b s \<noteq> Some None"
    using assms that by (auto simp: write_block_def read_block_def Let_def split: if_splits option.splits)
qed



section \<open>Removing a file\<close>

declare find_entry_loop.simps [simp del]
declare add_entry_scan.simps [simp del]
declare chunks_of.simps [simp del]
declare extract_direct.simps [simp del]
declare extract_single.simps [simp del]
declare extract_double.simps [simp del]
declare extract_triple.simps [simp del]
declare free_indirect_entries.simps [simp del]








lemma block_allocated_data_segs:
  "data_segs s' = data_segs s \<Longrightarrow> block_allocated s' c = block_allocated s c"
  by (simp add: block_allocated_def data_seg_of_def)


section \<open>Views of a block\<close>

lemma word32_bytes:
  fixes w :: "32 word"
  shows "(ucast (ucast (drop_bit (8 * 0) w) :: byte) OR push_bit 8 (ucast (ucast (drop_bit (8 * 1) w) :: byte))
          OR push_bit 16 (ucast (ucast (drop_bit (8 * 2) w) :: byte))
          OR push_bit 24 (ucast (ucast (drop_bit (8 * 3) w) :: byte))) = w" (is "?l = w")
proof (rule bit_eqI)
  fix n assume "possible_bit TYPE(32 word) n"
  then have n: "n < 32" by (simp add: possible_bit_word)
  consider "n < 8" | "8 \<le> n \<and> n < 16" | "16 \<le> n \<and> n < 24" | "24 \<le> n \<and> n < 32"
    using n by linarith
  then show "bit ?l n = bit w n"
    by cases (auto simp: bit_or_iff bit_push_bit_iff bit_ucast_iff bit_drop_bit_eq possible_bit_word)
qed

lemma bytes_to_int_to_byte:
  assumes "- (2 ^ 31) \<le> x" "x < 2 ^ 31"
  shows "bytes_to_int (int_to_byte x 0) (int_to_byte x 1) (int_to_byte x 2) (int_to_byte x 3) = x"
proof -
  have "sint (word_of_int x :: 32 word) = x"
    using assms by (simp add: sint_sbintrunc' signed_take_bit_int_eq_self)
  then show ?thesis
    unfolding bytes_to_int_def int_to_byte_def word32_bytes .
qed

lemma ints_of_block_of_ints:
  assumes "i < PTRS_PER_BLOCK" "- (2 ^ 31) \<le> a i" "a i < 2 ^ 31"
  shows "ints_of_block (block_of_ints a) i = a i"
proof -
  have d: "(4 * i) div 4 = i" "(4 * i + 1) div 4 = i" "(4 * i + 2) div 4 = i" "(4 * i + 3) div 4 = i"
    "(4 * i) mod 4 = 0" "(4 * i + 1) mod 4 = 1" "(4 * i + 2) mod 4 = 2" "(4 * i + 3) mod 4 = 3"
    by presburger+
  from assms(1) have "4 * i + 3 < BLOCK_SIZE" by (simp add: PTRS_PER_BLOCK_def BLOCK_SIZE_def)
  then show ?thesis
    unfolding ints_of_block_def block_of_ints_def
    using bytes_to_int_to_byte[OF assms(2,3)] d by simp
qed

lemma ints_of_zero_block: "ints_of_block (\<lambda>_. 0) i = 0"
  by (simp add: ints_of_block_def bytes_to_int_def)




lemma sizeof_dir_entry_t_260: "sizeof_dir_entry_t = 260"
  by (simp add: sizeof_dir_entry_t_def MAX_FILENAME_def)

lemma DIR_ENTRIES_PER_BLOCK_15: "DIR_ENTRIES_PER_BLOCK = 15"
  by (simp add: DIR_ENTRIES_PER_BLOCK_def sizeof_dir_entry_t_260 BLOCK_SIZE_def)

lemma PTRS_PER_BLOCK_1024: "PTRS_PER_BLOCK = 1024"
  by (simp add: PTRS_PER_BLOCK_def BLOCK_SIZE_def)

lemma entry_offset:
  assumes "k < (260::nat)"
  shows "(j * 260 + k) div 260 = j" "(j * 260 + k) mod 260 = k"
  using assms by simp_all

lemma entries_of_block_of_entries:
  assumes "j < DIR_ENTRIES_PER_BLOCK" "- (2 ^ 31) \<le> inode_num (es j)" "inode_num (es j) < 2 ^ 31"
    and "\<forall>k\<ge>MAX_FILENAME. name (es j) k = 0"
  shows "entries_of_block (block_of_entries es) j = es j"
proof -
  let ?b = "block_of_entries es"
  have lt: "j * 260 + k < 3900" if "k < 260" for k
    using assms(1) that by (simp add: DIR_ENTRIES_PER_BLOCK_15)
  have nm: "?b (j * 260 + k) = name (es j) k" if "k < 256" for k
    using that lt[of k] entry_offset[of k j]
    by (simp add: block_of_entries_def sizeof_dir_entry_t_260 DIR_ENTRIES_PER_BLOCK_15
        MAX_FILENAME_def Let_def)
  have nb: "?b (j * 260 + 256 + m) = int_to_byte (inode_num (es j)) m" if "m < 4" for m
  proof -
    have m: "256 + m < 260" using that by simp
    have dm: "(j * 260 + 256 + m) div 260 = j" "(j * 260 + 256 + m) mod 260 = 256 + m"
      using entry_offset[OF m, of j] by (simp_all add: add.assoc)
    have "j * 260 + 256 + m < 3900" using lt[OF m] by simp
    then show ?thesis
      unfolding block_of_entries_def sizeof_dir_entry_t_260 DIR_ENTRIES_PER_BLOCK_15
          MAX_FILENAME_def Let_def dm
      by simp
  qed
  have "name (entries_of_block ?b j) = name (es j)"
  proof
    fix k show "name (entries_of_block ?b j) k = name (es j) k"
      using nm[of k] assms(4)
      by (simp add: entries_of_block_def sizeof_dir_entry_t_260 MAX_FILENAME_def)
  qed
  moreover have "inode_num (entries_of_block ?b j) = inode_num (es j)"
    using nb[of 0] nb[of 1] nb[of 2] nb[of 3] bytes_to_int_to_byte[OF assms(2,3)]
    by (simp add: entries_of_block_def sizeof_dir_entry_t_260 MAX_FILENAME_def)
  ultimately show ?thesis by simp
qed

section \<open>Adding over an existing name\<close>

lemma find_entry_in_dir_is_dir:
  "find_entry_in_dir ino nm s = Some t \<Longrightarrow> t \<noteq> - 1 \<Longrightarrow> i_type ino = INODE_DIR"
  by (auto simp: find_entry_in_dir_def split: if_splits)

lemma add_walk_existing:
  assumes "walk_path ps num ino s = Some (Inr (pn, pino))" "i_type pino = INODE_DIR"
  shows "i_type ino = INODE_DIR \<and> add_walk ps num ino s = Some (Inr (pn, pino), s)"
  using assms
proof (induction ps arbitrary: num ino)
  case Nil
  then show ?case by simp
next
  case (Cons p ps)
  from Cons.prems(1) obtain nxt ino' where
    f: "find_entry_in_dir ino p s = Some nxt" and n: "nxt \<noteq> - 1"
    and r: "read_inode nxt s = Some (Some ino')"
    and w: "walk_path ps nxt ino' s = Some (Inr (pn, pino))"
    by (auto split: option.splits if_splits)
  from Cons.IH[OF w Cons.prems(2)] have "i_type ino' = INODE_DIR"
    and "add_walk ps nxt ino' s = Some (Inr (pn, pino), s)" by simp_all
  with f n r find_entry_in_dir_is_dir[OF f n] show ?case by simp
qed

text \<open>
  C8. When the components before the last resolve along existing entries to a parent
  directory, and the last component is found in that parent, \<^verbatim>\<open>exfs2_add\<close> prints the
  diagnostic "File already exists" and returns the state it was given, for every local
  file.
\<close>

theorem add_existing_rejected:
  assumes "split_path path \<noteq> []"
    and "read_inode ROOT_DIR_INODE s = Some (Some root)"
    and "walk_path (butlast (split_path path)) ROOT_DIR_INODE root s = Some (Inr (pn, pino))"
    and "find_entry_in_dir pino (last (split_path path)) s = Some t" and "t \<noteq> - 1"
  shows "exfs2_add path local_file s = Some (Some (File_already_exists (last (split_path path))), s)"
proof -
  from find_entry_in_dir_is_dir[OF assms(4,5)] have "i_type pino = INODE_DIR" .
  from add_walk_existing[OF assms(3) this]
  have "add_walk (butlast (split_path path)) ROOT_DIR_INODE root s = Some (Inr (pn, pino), s)"
    by simp
  with assms show ?thesis by (simp add: exfs2_add_def Let_def)
qed

lemma split_path_a: "split_path [47, 97] = [[97]]"
  by (simp add: split_path_def slash_def Let_def MAX_PATH_def MAX_FILENAME_def)

lemma strncpy_name_beyond: "\<forall>k\<ge>MAX_FILENAME. strncpy_name nm k = 0"
  by (simp add: strncpy_name_def MAX_FILENAME_def)

lemma one_file_fs_lookup:
  "find_entry_in_dir one_file_root [97] one_file_fs = Some 1"
proof -
  let ?es = "fresh_entries [97] 1"
  have e0: "entries_of_block (block_of_entries ?es) 0 = ?es 0"
    by (rule entries_of_block_of_entries)
       (simp_all add: DIR_ENTRIES_PER_BLOCK_15 fresh_entries_def strncpy_name_beyond)
  have ld: "load_directory_entries 0 one_file_fs = Some (Some (entries_of_block (block_of_entries ?es)))"
    by (simp add: load_directory_entries_def read_block_def one_file_fs_def data_seg_of_def
        seg_lookup_def blocks_per_segment_255)
  have m: "strcmp_eq (name (?es 0)) [97]"
    by (simp add: strcmp_eq_def fresh_entries_def strncpy_name_def MAX_FILENAME_def)
  have "find_in_entries (entries_of_block (block_of_entries ?es)) [97] = Some 0"
    using e0 m by (simp add: find_in_entries_def DIR_ENTRIES_PER_BLOCK_15 upt_rec[of 0 15] fresh_entries_def)
  with ld e0 show ?thesis
    by (simp add: find_entry_in_dir_def one_file_root_def root_inode_def c_string_def
        MAX_FILENAME_def find_entry_loop.simps[of _ _ 0] MAX_DIRECT_BLOCKS_def zero_inode_def
        fresh_entries_def)
qed

theorem add_existing_rejected_witness:
  "exfs2_add [47, 97] (Some [1, 2, 3]) one_file_fs
     = Some (Some (File_already_exists [97]), one_file_fs)"
proof -
  have h1: "split_path [47, 97] \<noteq> []" by (simp add: split_path_a)
  have h2: "read_inode ROOT_DIR_INODE one_file_fs = Some (Some one_file_root)"
    by (simp add: read_inode_def ROOT_DIR_INODE_def one_file_fs_def inode_seg_of_def
        seg_lookup_def num_inodes_per_segment_254)
  have h3: "walk_path (butlast (split_path [47, 97])) ROOT_DIR_INODE one_file_root one_file_fs
              = Some (Inr (ROOT_DIR_INODE, one_file_root))"
    by (simp add: split_path_a)
  have h4: "find_entry_in_dir one_file_root (last (split_path [47, 97])) one_file_fs = Some 1"
    by (simp add: split_path_a one_file_fs_lookup)
  have h5: "(1::int) \<noteq> - 1" by simp
  from add_existing_rejected[OF h1 h2 h3 h4 h5, of "Some [1, 2, 3]"] show ?thesis
    by (simp add: split_path_a)
qed

section \<open>The copy loop never sets the triple-indirect pointer\<close>








lemma chunks_of_short:
  "bs \<noteq> [] \<Longrightarrow> length bs \<le> BLOCK_SIZE \<Longrightarrow> chunks_of bs = [bs]"
  by (simp add: chunks_of.simps[of bs] chunks_of.simps[of "[]"])

lemma allocate_block_first_free:
  assumes "data_seg_of s 0 = Some seg" "\<not> test_bit_bm (dbitmap seg) j" "j < blocks_per_segment"
    "\<forall>m<j. test_bit_bm (dbitmap seg) m"
  shows "allocate_block s = Some (int j, put_data_seg 0 (seg\<lparr>dbitmap := set_bit_bm (dbitmap seg) j\<rparr>) s)"
proof -
  have nn: "0 \<le> find_free_bit (dbitmap seg) blocks_per_segment"
    by (rule find_free_bit_found[OF assms(3,2)])
  from find_free_bit_lowest[OF nn] assms(2,4)
  have "nat (find_free_bit (dbitmap seg) blocks_per_segment) = j"
    by (metis linorder_neqE_nat)
  with nn have f: "find_free_bit (dbitmap seg) blocks_per_segment = int j" by simp
  have "int j \<le> INT_MAX" using assms(3) by (simp add: INT_MAX_def blocks_per_segment_255)
  with f assms(1) show ?thesis
    by (simp add: allocate_block_def allocate_block_loop.simps[of 0 s] open_data_seg_present)
qed

lemma test_bit_bm_numeral_simps:
  "test_bit_bm (set_bit_bm bm j) i = (i = j \<or> test_bit_bm bm i)"
  "test_bit_bm (\<lambda>_. 0) i = False"
  by (simp_all add: test_bit_set_bit test_bit_zero)



lemma write_block_defined: "0 \<le> b \<Longrightarrow> \<exists>rc s'. write_block b buf s = Some (rc, s')"
  by (auto simp: write_block_def Let_def split: option.splits)

lemma write_block_allocated:
  assumes "read_block b s \<noteq> Some None" "0 \<le> b"
  shows "\<exists>s'. write_block b buf s = Some (0, s')"
  using write_block_defined[OF assms(2), of buf s] write_block_effect(9)[of b buf s] assms(1)
  by auto



section \<open>The size of a directory\<close>










lemma dir_size_inv_host [simp]: "dir_size_inv (s\<lparr>host_free := h\<rparr>) = dir_size_inv s"
  by (simp add: dir_size_inv_def)









































lemma seg_store_empty: "seg_store [] 0 v = [Some v]"
  by (simp add: seg_store_def)

lemma init_fs_empty_host:
  "init_fs (empty_host 2) =
     Some (0, fresh_fs)"
  by (simp add: fresh_fs_def init_fs_def empty_host_def inode_seg_of_def seg_lookup_def create_new_segment_def
      Let_def put_inode_seg_def put_data_seg_def seg_store_def write_inode_def ROOT_DIR_INODE_def
      num_inodes_per_segment_254 zero_inode_seg_def)


section \<open>Evaluating small examples\<close>

lemma split_path_f: "split_path [47, 102] = [[102]]"
  by (simp add: split_path_def slash_def Let_def MAX_PATH_def MAX_FILENAME_def)

lemmas eval_consts = num_inodes_per_segment_254 blocks_per_segment_255 DIR_ENTRIES_PER_BLOCK_15
  PTRS_PER_BLOCK_1024 MAX_DIRECT_BLOCKS_def ROOT_DIR_INODE_def INODE_DIR_def INODE_FILE_def
  MAX_FILENAME_def BLOCK_SIZE_def INT_MAX_def

lemmas eval_store = inode_seg_of_def data_seg_of_def seg_lookup_def seg_store_def
  put_inode_seg_def put_data_seg_def read_inode_def write_inode_def read_block_def
  write_block_def Let_def

lemma allocate_inode_first_free:
  assumes "inode_seg_of s 0 = Some seg" "\<not> test_bit_bm (ibitmap seg) j"
    "j < num_inodes_per_segment" "\<forall>m<j. test_bit_bm (ibitmap seg) m"
  shows "allocate_inode s = Some (int j, put_inode_seg 0 (seg\<lparr>ibitmap := set_bit_bm (ibitmap seg) j\<rparr>) s)"
proof -
  have nn: "0 \<le> find_free_bit (ibitmap seg) num_inodes_per_segment"
    by (rule find_free_bit_found[OF assms(3,2)])
  from find_free_bit_lowest[OF nn] assms(2,4)
  have "nat (find_free_bit (ibitmap seg) num_inodes_per_segment) = j"
    by (metis linorder_neqE_nat)
  with nn have f: "find_free_bit (ibitmap seg) num_inodes_per_segment = int j" by simp
  have "int j \<le> INT_MAX" using assms(3) by (simp add: INT_MAX_def num_inodes_per_segment_254)
  with f assms(1) show ?thesis
    by (simp add: allocate_inode_def allocate_inode_loop.simps[of 0 s] open_inode_seg_present)
qed

lemma fresh_alloc_inode:
  "allocate_inode fresh_fs = Some (1, fresh_fs\<lparr>inode_segs :=
      [Some \<lparr> ibitmap = set_bit_bm (set_bit_bm (\<lambda>_. 0) 0) 1,
               inodes = (\<lambda>_. zero_inode) (0 := root_inode) \<rparr>]\<rparr>)"
proof -
  have d: "inode_seg_of fresh_fs 0 = Some \<lparr> ibitmap = set_bit_bm (\<lambda>_. 0) 0,
                             inodes = (\<lambda>_. zero_inode) (0 := root_inode) \<rparr>"
    by (simp add: fresh_fs_def inode_seg_of_def seg_lookup_def)
  from allocate_inode_first_free[OF d, of 1] show ?thesis
    by (simp add: test_bit_bm_numeral_simps num_inodes_per_segment_254 put_inode_seg_def
        seg_store_def fresh_fs_def)
qed


lemma find_entry_in_dir_empty:
  assumes "num_direct d = 0" "c_string nm" "length nm < MAX_FILENAME"
  shows "find_entry_in_dir d nm s = Some (- 1)"
  using assms by (simp add: find_entry_in_dir_def find_entry_loop.simps[of d nm 0 s])

lemma add_entry_scan_empty:
  assumes "num_direct d = 0"
  shows "add_entry_scan d nm c 0 s = Some (False, s)"
  using assms by (simp add: add_entry_scan.simps[of d nm c 0 s])

lemma read_block_data_segs:
  "data_segs s' = data_segs s \<Longrightarrow> read_block c s' = read_block c s"
  by (simp add: read_block_def data_seg_of_def)

text \<open>Adding the first entry of a directory allocates its first block.\<close>

lemma add_entry_to_dir_empty:
  assumes "i_type d = INODE_DIR" "num_direct d = 0" "c_string nm" "length nm < MAX_FILENAME"
    and "allocate_block s = Some (b, s1)" "b \<noteq> - 1"
    and "read_inode dn s = Some (Some x)"
  shows "\<exists>s'. add_entry_to_dir d dn nm c s
           = Some (0, d\<lparr>direct_blocks := (direct_blocks d) (0 := b), num_direct := 1,
                          i_size := i_size d + word_of_nat BLOCK_SIZE\<rparr>, s')
         \<and> read_inode dn s' = Some (Some (d\<lparr>direct_blocks := (direct_blocks d) (0 := b),
                          num_direct := 1, i_size := i_size d + word_of_nat BLOCK_SIZE\<rparr>))
         \<and> (\<forall>m. m \<noteq> dn \<longrightarrow> read_inode m s' = read_inode m s)
         \<and> read_block b s' = Some (Some (block_of_entries (fresh_entries nm c)))
         \<and> (\<forall>m. m \<noteq> b \<longrightarrow> block_allocated s' m = block_allocated s m)
         \<and> block_allocated s' b"
proof -
  let ?d = "d\<lparr>direct_blocks := (direct_blocks d) (0 := b), num_direct := 1,
                          i_size := i_size d + word_of_nat BLOCK_SIZE\<rparr>"
  note e = allocate_block_effect[OF assms(5,6)]
  from write_block_allocated[OF e(8) e(1), of "block_of_entries (fresh_entries nm c)"] obtain s2
    where w: "write_block b (block_of_entries (fresh_entries nm c)) s1 = Some (0, s2)" by blast
  note we = write_block_effect[OF w]
  have is2: "inode_segs s2 = inode_segs s" using e(9) we(7) by simp
  from assms(7) have dn: "0 \<le> dn" by (auto simp: read_inode_def split: if_splits)
  from assms(7) obtain seg where sg: "inode_seg_of s (nat dn div num_inodes_per_segment) = Some seg"
    by (auto simp: read_inode_def Let_def split: if_splits option.splits)
  with is2 have sg2: "inode_seg_of s2 (nat dn div num_inodes_per_segment) = Some seg"
    by (simp add: inode_seg_of_def)
  let ?s' = "put_inode_seg (nat dn div num_inodes_per_segment)
              (seg\<lparr>inodes := (inodes seg) (nat dn mod num_inodes_per_segment := ?d)\<rparr>) s2"
  have wi: "write_inode dn ?d s2 = Some (0, ?s')"
    using dn sg2 by (simp add: write_inode_def Let_def)
  have "add_entry_to_dir d dn nm c s = Some (0, ?d, ?s')"
    using assms(1-6) w wi find_entry_in_dir_empty[OF assms(2,3,4), of s]
      add_entry_scan_empty[OF assms(2), of nm c s]
    by (simp add: add_entry_to_dir_def save_directory_entries_def MAX_DIRECT_BLOCKS_def Let_def)
  moreover have "read_inode dn ?s' = Some (Some ?d)"
    using dn by (simp add: read_inode_def Let_def)
  moreover have "\<forall>m. m \<noteq> dn \<longrightarrow> read_inode m ?s' = read_inode m s"
  proof (intro allI impI)
    fix m assume m: "m \<noteq> dn"
    show "read_inode m ?s' = read_inode m s"
    proof (cases "0 \<le> m")
      case False then show ?thesis by (simp add: read_inode_def)
    next
      case True
      show ?thesis
      proof (cases "nat m div num_inodes_per_segment = nat dn div num_inodes_per_segment")
        case False
        with is2 show ?thesis by (simp add: read_inode_def Let_def inode_seg_of_def put_inode_seg_def
              seg_lookup_store_other)
      next
        case k: True
        have "nat m mod num_inodes_per_segment \<noteq> nat dn mod num_inodes_per_segment"
        proof
          assume "nat m mod num_inodes_per_segment = nat dn mod num_inodes_per_segment"
          with k have "nat m = nat dn" by (metis div_mult_mod_eq)
          with True dn m show False by simp
        qed
        with k sg True show ?thesis by (simp add: read_inode_def Let_def)
      qed
    qed
  qed
  moreover have "read_block b ?s' = Some (Some (block_of_entries (fresh_entries nm c)))"
    using we(3) read_block_data_segs[of ?s' s2 b] by simp
  moreover have "\<forall>m. m \<noteq> b \<longrightarrow> block_allocated ?s' m = block_allocated s m"
    using e(5) we(5) block_allocated_data_segs[of ?s' s2] by simp
  moreover have "block_allocated ?s' b"
    using e(4) we(5) block_allocated_data_segs[of ?s' s2] by simp
  ultimately show ?thesis by blast
qed


lemma allocate_block_eval:
  assumes "\<not> test_bit_bm (dbitmap seg) 0 \<or> \<not> test_bit_bm (dbitmap seg) 1 \<or> \<not> test_bit_bm (dbitmap seg) 2"
  shows "allocate_block \<lparr>inode_segs = isg, data_segs = Some seg # rest, host_free = h\<rparr> =
    (let j = (if \<not> test_bit_bm (dbitmap seg) 0 then 0
              else if \<not> test_bit_bm (dbitmap seg) 1 then 1 else 2)
     in Some (int j, \<lparr>inode_segs = isg,
                data_segs = Some (seg\<lparr>dbitmap := set_bit_bm (dbitmap seg) j\<rparr>) # rest,
                host_free = h\<rparr>))"
proof -
  let ?s = "\<lparr>inode_segs = isg, data_segs = Some seg # rest, host_free = h\<rparr>"
  let ?j = "(if \<not> test_bit_bm (dbitmap seg) 0 then 0
              else if \<not> test_bit_bm (dbitmap seg) 1 then 1 else 2) :: nat"
  have d: "data_seg_of ?s 0 = Some seg" by (simp add: data_seg_of_def seg_lookup_def)
  have c: "\<not> test_bit_bm (dbitmap seg) ?j" using assms by auto
  have l: "\<forall>m<?j. test_bit_bm (dbitmap seg) m"
    by (auto simp: less_Suc_eq numeral_2_eq_2)
  have j: "?j < blocks_per_segment" by (simp add: blocks_per_segment_255)
  from allocate_block_first_free[OF d c j l] show ?thesis
    by (simp add: put_data_seg_def seg_store_def Let_def)
qed

lemma allocate_inode_eval:
  assumes "\<not> test_bit_bm (ibitmap seg) 0 \<or> \<not> test_bit_bm (ibitmap seg) 1 \<or> \<not> test_bit_bm (ibitmap seg) 2"
  shows "allocate_inode \<lparr>inode_segs = Some seg # rest, data_segs = dsg, host_free = h\<rparr> =
    (let j = (if \<not> test_bit_bm (ibitmap seg) 0 then 0
              else if \<not> test_bit_bm (ibitmap seg) 1 then 1 else 2)
     in Some (int j, \<lparr>inode_segs = Some (seg\<lparr>ibitmap := set_bit_bm (ibitmap seg) j\<rparr>) # rest,
                data_segs = dsg, host_free = h\<rparr>))"
proof -
  let ?s = "\<lparr>inode_segs = Some seg # rest, data_segs = dsg, host_free = h\<rparr>"
  let ?j = "(if \<not> test_bit_bm (ibitmap seg) 0 then 0
              else if \<not> test_bit_bm (ibitmap seg) 1 then 1 else 2) :: nat"
  have d: "inode_seg_of ?s 0 = Some seg" by (simp add: inode_seg_of_def seg_lookup_def)
  have c: "\<not> test_bit_bm (ibitmap seg) ?j" using assms by auto
  have l: "\<forall>m<?j. test_bit_bm (ibitmap seg) m"
    by (auto simp: less_Suc_eq numeral_2_eq_2)
  have j: "?j < num_inodes_per_segment" by (simp add: num_inodes_per_segment_254)
  from allocate_inode_first_free[OF d c j l] show ?thesis
    by (simp add: put_inode_seg_def seg_store_def Let_def)
qed

lemmas eval_add = exfs2_add_def add_entry_to_dir_def add_block_def place_direct_def
  save_directory_entries_def init_locals_def new_file_inode_def root_inode_def zero_inode_def
  zero_data_seg_def in_bounds_def c_string_def find_entry_in_dir_def first_direct_block_def
  allocate_block_eval allocate_inode_eval test_bit_bm_numeral_simps chunks_of_short

section \<open>The copy loop\<close>

lemma bytes_to_int_zero: "bytes_to_int 0 0 0 0 = 0"
  by (simp add: bytes_to_int_def)

lemma ints_roundtrip_fun:
  assumes "\<forall>k. - (2 ^ 31) \<le> a k \<and> a k < 2 ^ 31" "\<forall>k\<ge>PTRS_PER_BLOCK. a k = 0"
  shows "ints_of_block (block_of_ints a) = a"
proof
  fix k
  show "ints_of_block (block_of_ints a) k = a k"
  proof (cases "k < PTRS_PER_BLOCK")
    case True
    with assms(1) show ?thesis by (simp add: ints_of_block_of_ints)
  next
    case False
    then have "\<not> 4 * k < BLOCK_SIZE" "\<not> 4 * k + 1 < BLOCK_SIZE" "\<not> 4 * k + 2 < BLOCK_SIZE"
      "\<not> 4 * k + 3 < BLOCK_SIZE"
      by (simp_all add: PTRS_PER_BLOCK_def BLOCK_SIZE_def)
    then have "ints_of_block (block_of_ints a) k = 0"
      by (simp add: ints_of_block_def block_of_ints_def bytes_to_int_zero)
    with False assms(2) show ?thesis by simp
  qed
qed

lemma block_allocated_exists: "block_allocated s b \<Longrightarrow> read_block b s \<noteq> Some None"
  by (auto simp: block_allocated_def read_block_def Let_def split: option.splits)

lemma stores_ints_alloc:
  assumes "stores_ints s b a" "allocate_block s = Some (c, s')"
  shows "stores_ints s' b a" "c \<noteq> - 1 \<Longrightarrow> c \<noteq> b"
proof -
  show "stores_ints s' b a"
  proof (cases "c = - 1")
    case True
    with assms allocate_block_fail[of s s'] show ?thesis by simp
  next
    case False
    note e = allocate_block_effect[OF assms(2) False]
    from assms(1) have "read_block b s \<noteq> Some None" by (simp add: stores_ints_def)
    from e(7)[OF this] e(5)[of b] e(3) assms(1) show ?thesis
      by (auto simp: stores_ints_def)
  qed
  show "c \<noteq> b" if "c \<noteq> - 1"
    using allocate_block_effect(3)[OF assms(2) that] assms(1) by (auto simp: stores_ints_def)
qed

lemma stores_ints_write_other:
  assumes "stores_ints s b a" "write_block c buf s = Some (rc, s')" "c \<noteq> b"
  shows "stores_ints s' b a"
  using assms write_block_effect(4,5)[OF assms(2)] by (simp add: stores_ints_def)

lemma stores_ints_write_same:
  assumes "block_allocated s b" "write_block b (block_of_ints a) s = Some (rc, s')"
  shows "stores_ints s' b a"
  using write_block_effect(1,3,5,9)[OF assms(2)] block_allocated_exists[OF assms(1)] assms(1)
  by (simp add: stores_ints_def)

lemma block_allocated_alloc_mono:
  assumes "block_allocated s b" "allocate_block s = Some (c, s')"
  shows "block_allocated s' b"
proof (cases "c = - 1")
  case True
  with assms allocate_block_fail[of s s'] show ?thesis by simp
next
  case False
  note e = allocate_block_effect[OF assms(2) False]
  from e(3) assms(1) have "b \<noteq> c" by auto
  with e(5)[of b] assms(1) show ?thesis by simp
qed

text \<open>After a successful allocation block 0 is taken; it is returned only when it was free.\<close>

lemma allocate_block_zero:
  assumes "allocate_block s = Some (c, s')" "c \<noteq> - 1"
  shows "block_allocated s' 0" "block_allocated s 0 \<Longrightarrow> 0 < c"
proof -
  note e = allocate_block_effect[OF assms]
  show "block_allocated s' 0"
  proof (cases "c = 0")
    case True
    with e(4) show ?thesis by simp
  next
    case False
    with e(1) have "0 < c" by simp
    from e(6)[OF _ this] e(5)[of 0] False show ?thesis by simp
  qed
  show "0 < c" if "block_allocated s 0"
    using that e(1,3) by (cases "c = 0") auto
qed


lemma keeps_refl: "keeps s s W"
  by (simp add: keeps_def)

lemma keeps_trans: "keeps s s1 W1 \<Longrightarrow> keeps s1 s2 W2 \<Longrightarrow> keeps s s2 (W1 \<union> W2)"
  by (auto simp: keeps_def)

lemma keeps_mono: "keeps s s' W \<Longrightarrow> W \<subseteq> W' \<Longrightarrow> keeps s s' W'"
  by (auto simp: keeps_def)

lemma keeps_alloc: "allocate_block s = Some (c, s') \<Longrightarrow> keeps s s' {}"
  by (auto simp: keeps_def dest: block_allocated_alloc_mono stores_ints_alloc(1))

lemma keeps_write: "write_block c buf s = Some (rc, s') \<Longrightarrow> keeps s s' {c}"
  using write_block_effect(5)[of c buf s rc s']
  by (auto simp: keeps_def dest: stores_ints_write_other)

lemma keeps_allocated: "keeps s s' W \<Longrightarrow> block_allocated s b \<Longrightarrow> block_allocated s' b"
  by (simp add: keeps_def)

lemma keeps_stores: "keeps s s' W \<Longrightarrow> stores_ints s b a \<Longrightarrow> b \<notin> W \<Longrightarrow> stores_ints s' b a"
  by (auto simp: keeps_def)

lemma stores_ints_allocated: "stores_ints s b a \<Longrightarrow> block_allocated s b"
  by (simp add: stores_ints_def)

text \<open>The first two steps of an iteration that goes on to place its block.\<close>

lemma add_block_InrE:
  assumes "add_block chunk l s = Some (Inr l', s')"
  obtains b s1 s2 lp where "allocate_block s = Some (b, s1)" "b \<noteq> - 1"
    "write_block b (block_of_bytes chunk) s1 = Some (0, s2)"
    "(if total_blocks l < int MAX_DIRECT_BLOCKS then place_direct b l s2
      else if total_blocks l < int (MAX_DIRECT_BLOCKS + PTRS_PER_BLOCK)
      then place_indirect b l s2 else place_double b l s2) = Some (Inr lp, s')"
    "l' = lp \<lparr> total_blocks := total_blocks lp + 1,
               file_inode := (file_inode lp)
                  \<lparr> i_size := i_size (file_inode lp) + word_of_nat (length chunk) \<rparr> \<rparr>"
  using assms
  by (auto simp: add_block_def split: option.splits if_splits sum.splits prod.splits)

lemma copy_inv_at_final:
  "copy_inv_at n (lp \<lparr> total_blocks := t,
               file_inode := (file_inode lp) \<lparr> i_size := z \<rparr> \<rparr>) s = copy_inv_at n lp s"
  by (simp add: copy_inv_at_def Let_def)


lemma copy_step_direct:
  assumes inv: "copy_inv_at n l s" and n: "n < 1017"
    and al: "allocate_block s = Some (b, s1)" "b \<noteq> - 1"
    and wr: "write_block b buf s1 = Some (0, s2)"
    and pl: "place_direct b l s2 = Some (Inr lp, s')"
  shows "copy_inv_at (n + 1) lp s'"
proof -
  from pl have s': "s' = s2"
    and lp: "lp = l \<lparr> file_inode := (file_inode l)
                  \<lparr> direct_blocks := (direct_blocks (file_inode l)) (nat (num_direct (file_inode l)) := b),
                    num_direct := num_direct (file_inode l) + 1 \<rparr> \<rparr>"
    by (auto simp: place_direct_def Let_def split: if_splits)
  have z: "block_allocated s2 0"
    using allocate_block_zero(1)[OF al] keeps_allocated[OF keeps_write[OF wr]] by simp
  from inv n z show ?thesis
    unfolding s' lp copy_inv_at_def Let_def by simp
qed

lemma copy_step_indirect:
  assumes inv: "copy_inv_at n l s" and n: "1017 \<le> n" "n < 2041"
    and al: "allocate_block s = Some (b, s1)" "b \<noteq> - 1"
    and wr: "write_block b buf s1 = Some (0, s2)"
    and pl: "place_indirect b l s2 = Some (Inr lp, s')"
  shows "copy_inv_at (n + 1) lp s'"
proof -
  let ?fi = "file_inode l"
  from inv n have z0: "block_allocated s 0" by (simp add: copy_inv_at_def Let_def)
  note b_pos = allocate_block_zero(2)[OF al z0]
  note be = allocate_block_effect[OF al]
  note k1 = keeps_alloc[OF al(1)] and k2 = keeps_write[OF wr]
  have z2: "block_allocated s2 0"
    using keeps_allocated[OF k2 keeps_allocated[OF k1 z0]] .
  from inv n have cnt: "indirect_count l = n - 1017"
    and dbl: "double_indirect_block ?fi = - 1" "double_indirect_level1_count l = 0"
      "double_indirect_level2_count l = 0"
    and nd: "num_direct ?fi = 1017"
    by (simp_all add: copy_inv_at_def Let_def)
  from pl obtain ib buf0 s3 where ld: "load_indirect l s2 = Some (ib, buf0, s3)"
    and ib: "ib \<noteq> - 1"
    and w3: "write_block ib (block_of_ints (buf0 (nat (indirect_count l) := b))) s3 = Some (0, s')
             \<or> write_block ib (block_of_ints (buf0 (nat (indirect_count l) := b))) s3 = Some (- 1, s')"
    and lp: "lp = l \<lparr> file_inode := ?fi \<lparr> indirect_block := ib \<rparr>,
                      indirect_buf := buf0 (nat (indirect_count l) := b),
                      indirect_count := indirect_count l + 1 \<rparr>"
    by (auto simp: place_indirect_def Let_def split: option.splits prod.splits if_splits
        dest: write_block_effect(2))
  let ?buf = "buf0 (nat (indirect_count l) := b)"
  from w3 obtain rc where w3': "write_block ib (block_of_ints ?buf) s3 = Some (rc, s')" by auto
  have main: "block_allocated s3 ib \<and> block_allocated s3 0
      \<and> (\<forall>k. int k < indirect_count l \<longrightarrow> 0 < buf0 k \<and> buf0 k \<le> INT_MAX)
      \<and> (\<forall>k. indirect_count l \<le> int k \<longrightarrow> buf0 k = 0)"
  proof (cases "n = 1017")
    case True
    with inv have "indirect_block ?fi = - 1" by (simp add: copy_inv_at_def Let_def)
    with ld have a3: "allocate_block s2 = Some (ib, s3)" and b0: "buf0 = (\<lambda>_. 0)"
      by (auto simp: load_indirect_def split: option.splits)
    from allocate_block_effect(4)[OF a3 ib] keeps_allocated[OF keeps_alloc[OF a3] z2] b0 cnt True
    show ?thesis by simp
  next
    case False
    with n inv have si: "stores_ints s (indirect_block ?fi) (indirect_buf l)"
      and e1: "\<forall>k. int k < indirect_count l \<longrightarrow> 0 < indirect_buf l k \<and> indirect_buf l k \<le> INT_MAX"
      and e2: "\<forall>k. indirect_count l \<le> int k \<longrightarrow> indirect_buf l k = 0"
      by (simp_all add: copy_inv_at_def Let_def)
    from si have ne: "indirect_block ?fi \<noteq> - 1" by (auto simp: stores_ints_def)
    from stores_ints_alloc(2)[OF si al] have "b \<noteq> indirect_block ?fi" .
    with keeps_stores[OF k2 keeps_stores[OF k1 si]]
    have si2: "stores_ints s2 (indirect_block ?fi) (indirect_buf l)" by simp
    have rt: "ints_of_block (block_of_ints (indirect_buf l)) = indirect_buf l"
    proof (rule ints_roundtrip_fun)
      show "\<forall>k. - (2 ^ 31) \<le> indirect_buf l k \<and> indirect_buf l k < 2 ^ 31"
      proof
        fix k show "- (2 ^ 31) \<le> indirect_buf l k \<and> indirect_buf l k < 2 ^ 31"
          using e1[rule_format, of k] e2[rule_format, of k]
          by (cases "int k < indirect_count l") (auto simp: INT_MAX_def)
      qed
      show "\<forall>k\<ge>PTRS_PER_BLOCK. indirect_buf l k = 0"
        using e2 cnt n by (simp add: PTRS_PER_BLOCK_1024)
    qed
    from ld ne si2 rt have "ib = indirect_block ?fi" "buf0 = indirect_buf l" "s3 = s2"
      by (auto simp: load_indirect_def stores_ints_def split: option.splits)
    with si2 z2 e1 e2 show ?thesis by (simp add: stores_ints_def)
  qed
  then have a3: "block_allocated s3 ib" and z3: "block_allocated s3 0"
    and e1: "\<forall>k. int k < indirect_count l \<longrightarrow> 0 < buf0 k \<and> buf0 k \<le> INT_MAX"
    and e2: "\<forall>k. indirect_count l \<le> int k \<longrightarrow> buf0 k = 0" by simp_all
  from stores_ints_write_same[OF a3 w3'] have st: "stores_ints s' ib ?buf" .
  have z': "block_allocated s' 0" using keeps_allocated[OF keeps_write[OF w3'] z3] .
  have c0: "0 \<le> indirect_count l" using cnt n by simp
  have f1: "\<forall>k. int k < indirect_count l + 1 \<longrightarrow> 0 < ?buf k \<and> ?buf k \<le> INT_MAX"
  proof (intro allI impI)
    fix k assume "int k < indirect_count l + 1"
    then show "0 < ?buf k \<and> ?buf k \<le> INT_MAX"
      using e1[rule_format, of k] b_pos be(2) c0 by (cases "k = nat (indirect_count l)") auto
  qed
  have f2: "\<forall>k. indirect_count l + 1 \<le> int k \<longrightarrow> ?buf k = 0"
    using e2 c0 by auto
  from n cnt dbl nd st z' f1 f2 show ?thesis
    unfolding lp copy_inv_at_def Let_def by simp
qed


lemma ints_of_zero_ints: "ints_of_block (block_of_ints (\<lambda>_. 0)) = (\<lambda>_. 0)"
  by (rule ints_roundtrip_fun) simp_all

lemma load_double_first:
  assumes "double_indirect_block (file_inode l) = - 1"
    and "load_double l s = Some (db, dbuf0, s3)" "db \<noteq> - 1"
  shows "\<not> block_allocated s db" "0 \<le> db" "db \<le> INT_MAX" "dbuf0 = (\<lambda>_. 0)"
    "stores_ints s3 db (\<lambda>_. 0)" "keeps s s3 {db}"
proof -
  from assms obtain s1 rc where a: "allocate_block s = Some (db, s1)"
    and w: "write_block db (block_of_ints (\<lambda>_. 0)) s1 = Some (rc, s3)" and d: "dbuf0 = (\<lambda>_. 0)"
    by (auto simp: load_double_def split: option.splits if_splits)
  note e = allocate_block_effect[OF a assms(3)]
  show "\<not> block_allocated s db" "0 \<le> db" "db \<le> INT_MAX" "dbuf0 = (\<lambda>_. 0)"
    using e d by simp_all
  show "stores_ints s3 db (\<lambda>_. 0)" by (rule stores_ints_write_same[OF e(4) w])
  from keeps_trans[OF keeps_alloc[OF a] keeps_write[OF w]] show "keeps s s3 {db}" by simp
qed

lemma load_double_next:
  assumes "stores_ints s (double_indirect_block (file_inode l)) (double_indirect_buf l)"
    and "ints_of_block (block_of_ints (double_indirect_buf l)) = double_indirect_buf l"
    and "load_double l s = Some (db, dbuf0, s3)"
  shows "db = double_indirect_block (file_inode l)" "dbuf0 = double_indirect_buf l" "s3 = s"
  using assms by (auto simp: load_double_def stores_ints_def split: option.splits if_splits)

lemma open_level1_new:
  assumes "l2c < int PTRS_PER_BLOCK" "dbuf (nat l1c) = 0"
    and "open_level1 dbuf l1c l2c s = Some (Inr (dbuf', l1c', l2c'), s')"
  shows "\<exists>nl. \<not> block_allocated s nl \<and> 0 \<le> nl \<and> nl \<le> INT_MAX
            \<and> (block_allocated s 0 \<longrightarrow> 0 < nl)
            \<and> dbuf' = dbuf (nat l1c := nl) \<and> l1c' = l1c + 1 \<and> l2c' = 0
            \<and> in_bounds l1c PTRS_PER_BLOCK
            \<and> stores_ints s' nl (\<lambda>_. 0) \<and> keeps s s' {nl}"
proof -
  from assms have ib: "in_bounds l1c PTRS_PER_BLOCK"
    by (auto simp: open_level1_def split: if_splits)
  with assms obtain nl s1 rc where a: "allocate_block s = Some (nl, s1)" and nl: "nl \<noteq> - 1"
    and w: "write_block nl (block_of_ints (\<lambda>_. 0)) s1 = Some (rc, s')"
    and r: "dbuf' = dbuf (nat l1c := nl)" "l1c' = l1c + 1" "l2c' = 0"
    by (auto simp: open_level1_def split: option.splits if_splits)
  note e = allocate_block_effect[OF a nl]
  have "stores_ints s' nl (\<lambda>_. 0)" by (rule stores_ints_write_same[OF e(4) w])
  moreover from keeps_trans[OF keeps_alloc[OF a] keeps_write[OF w]] have "keeps s s' {nl}" by simp
  ultimately show ?thesis
    using e(1,2,3) r ib allocate_block_zero(2)[OF a nl] by blast
qed

lemma store_level1_spec:
  assumes "stores_ints s (dbuf (nat (l1c - 1))) (\<lambda>_. 0)" "block_allocated s db"
    and "db \<noteq> dbuf (nat (l1c - 1))"
    and "store_level1 b db dbuf l1c 0 l s = Some (Inr lp, s')"
  shows "lp = l \<lparr> file_inode := (file_inode l) \<lparr> double_indirect_block := db \<rparr>,
                  double_indirect_buf := dbuf,
                  double_indirect_level1_count := l1c,
                  double_indirect_level2_count := 1 \<rparr>"
    "stores_ints s' (dbuf (nat (l1c - 1))) ((\<lambda>_. 0) (0 := b))" "stores_ints s' db dbuf"
    "keeps s s' {dbuf (nat (l1c - 1)), db}"
proof -
  let ?nl = "dbuf (nat (l1c - 1))"
  from assms(1) have rd: "read_block ?nl s = Some (Some (block_of_ints (\<lambda>_. 0)))"
    by (simp add: stores_ints_def)
  from assms(4) rd obtain rc1 s1 rc2 where
    w1: "write_block ?nl (block_of_ints ((\<lambda>_. 0) (0 := b))) s = Some (rc1, s1)"
    and w2: "write_block db (block_of_ints dbuf) s1 = Some (rc2, s')"
    and lp: "lp = l \<lparr> file_inode := (file_inode l) \<lparr> double_indirect_block := db \<rparr>,
                  double_indirect_buf := dbuf,
                  double_indirect_level1_count := l1c,
                  double_indirect_level2_count := 1 \<rparr>"
    by (auto simp: store_level1_def Let_def ints_of_zero_ints split: option.splits if_splits)
  show "lp = l \<lparr> file_inode := (file_inode l) \<lparr> double_indirect_block := db \<rparr>,
                  double_indirect_buf := dbuf,
                  double_indirect_level1_count := l1c,
                  double_indirect_level2_count := 1 \<rparr>" by (rule lp)
  from stores_ints_write_same[OF stores_ints_allocated[OF assms(1)] w1]
  have s1: "stores_ints s1 ?nl ((\<lambda>_. 0) (0 := b))" .
  from stores_ints_write_other[OF s1 w2 assms(3)]
  show "stores_ints s' ?nl ((\<lambda>_. 0) (0 := b))" .
  from keeps_allocated[OF keeps_write[OF w1] assms(2)] have "block_allocated s1 db" .
  from stores_ints_write_same[OF this w2] show "stores_ints s' db dbuf" .
  from keeps_trans[OF keeps_write[OF w1] keeps_write[OF w2]]
  show "keeps s s' {?nl, db}" by (simp add: insert_commute)
qed


lemma double_loaded:
  assumes inv: "copy_inv_at n l s" and n: "2041 \<le> n"
    and al: "allocate_block s = Some (b, s1)" "b \<noteq> - 1"
    and wr: "write_block b buf s1 = Some (0, s2)"
    and ld: "load_double l s2 = Some (db, dbuf0, s3)" and db: "db \<noteq> - 1"
  shows "double_indirect_level1_count l = n - 2041 \<and> double_indirect_level2_count l < 1024
      \<and> stores_ints s3 db dbuf0 \<and> db \<noteq> indirect_block (file_inode l)
      \<and> (\<forall>k. int k < n - 2041 \<longrightarrow>
            (0 < dbuf0 k \<and> dbuf0 k \<le> INT_MAX
              \<and> (\<exists>x. 0 < x \<and> x \<le> INT_MAX \<and> stores_ints s3 (dbuf0 k) ((\<lambda>_. 0) (0 := x))))
            \<and> dbuf0 k \<noteq> db \<and> dbuf0 k \<noteq> indirect_block (file_inode l))
      \<and> (\<forall>k. n - 2041 \<le> int k \<longrightarrow> dbuf0 k = 0)
      \<and> stores_ints s3 (indirect_block (file_inode l)) (indirect_buf l) \<and> block_allocated s3 0"
proof -
  let ?fi = "file_inode l" and ?m = "n - 2041"
  let ?ib = "indirect_block ?fi" and ?ibuf = "indirect_buf l"
  let ?L = "\<lambda>t d k. 0 < d k \<and> d k \<le> INT_MAX
              \<and> (\<exists>x. 0 < x \<and> x \<le> INT_MAX \<and> stores_ints t (d k) ((\<lambda>_. 0) (0 := x)))"
  from inv n have z0: "block_allocated s 0" by (simp add: copy_inv_at_def Let_def)
  note be = allocate_block_effect[OF al]
  have k02: "keeps s s2 {b}"
    using keeps_trans[OF keeps_alloc[OF al(1)] keeps_write[OF wr]] by simp
  have fresh_b: "c \<noteq> b" if "block_allocated s c" for c using that be(3) by auto
  from inv n have si: "stores_ints s ?ib ?ibuf"
    by (simp_all add: copy_inv_at_def Let_def)
  have si2: "stores_ints s2 ?ib ?ibuf"
    using keeps_stores[OF k02 si] fresh_b[OF stores_ints_allocated[OF si]] by simp
  have z2: "block_allocated s2 0" using keeps_allocated[OF k02 z0] .
  show ?thesis
  proof (cases "n = 2041")
    case True
    with inv have d: "double_indirect_block ?fi = - 1" "double_indirect_level1_count l = 0"
      "double_indirect_level2_count l = 0"
      by (simp_all add: copy_inv_at_def Let_def)
    note f = load_double_first[OF d(1) ld db]
    from f(1) stores_ints_allocated[OF si2] have ne: "db \<noteq> ?ib" by auto
    from keeps_stores[OF f(6) si2] ne have "stores_ints s3 ?ib ?ibuf" by simp
    moreover from keeps_allocated[OF f(6) z2] have "block_allocated s3 0" .
    ultimately show ?thesis using True d f(4,5) ne by simp
  next
    case False
    with n inv have l1: "double_indirect_level1_count l = ?m" and m: "?m \<le> 1024"
      and l2: "double_indirect_level2_count l = 1"
      and sd: "stores_ints s (double_indirect_block ?fi) (double_indirect_buf l)"
      and ne: "double_indirect_block ?fi \<noteq> ?ib"
      and lv: "\<forall>k. int k < ?m \<longrightarrow> ?L s (double_indirect_buf l) k
                  \<and> double_indirect_buf l k \<noteq> double_indirect_block ?fi
                  \<and> double_indirect_buf l k \<noteq> ?ib"
      and dz: "\<forall>k. ?m \<le> int k \<longrightarrow> double_indirect_buf l k = 0"
      by (simp_all add: copy_inv_at_def Let_def)
    have sd2: "stores_ints s2 (double_indirect_block ?fi) (double_indirect_buf l)"
      using keeps_stores[OF k02 sd] fresh_b[OF stores_ints_allocated[OF sd]] by simp
    have rt: "ints_of_block (block_of_ints (double_indirect_buf l)) = double_indirect_buf l"
    proof (rule ints_roundtrip_fun)
      show "\<forall>k. - (2 ^ 31) \<le> double_indirect_buf l k \<and> double_indirect_buf l k < 2 ^ 31"
      proof
        fix k show "- (2 ^ 31) \<le> double_indirect_buf l k \<and> double_indirect_buf l k < 2 ^ 31"
          using lv[rule_format, of k] dz[rule_format, of k]
          by (cases "int k < ?m") (auto simp: INT_MAX_def)
      qed
      show "\<forall>k\<ge>PTRS_PER_BLOCK. double_indirect_buf l k = 0"
        using dz m by (simp add: PTRS_PER_BLOCK_1024)
    qed
    note f = load_double_next[OF sd2 rt ld]
    have "\<forall>k. int k < ?m \<longrightarrow> ?L s2 (double_indirect_buf l) k"
    proof (intro allI impI)
      fix k assume k: "int k < ?m"
      from lv[rule_format, OF k] obtain x where x: "0 < x" "x \<le> INT_MAX"
        "stores_ints s (double_indirect_buf l k) ((\<lambda>_. 0) (0 := x))"
        and r: "0 < double_indirect_buf l k" "double_indirect_buf l k \<le> INT_MAX" by blast
      from keeps_stores[OF k02 x(3)] fresh_b[OF stores_ints_allocated[OF x(3)]]
      have "stores_ints s2 (double_indirect_buf l k) ((\<lambda>_. 0) (0 := x))" by simp
      with x(1,2) r show "?L s2 (double_indirect_buf l) k" by blast
    qed
    with f l1 l2 sd2 ne lv dz si2 z2 show ?thesis by simp
  qed
qed

lemma copy_step_double:
  assumes inv: "copy_inv_at n l s" and n: "2041 \<le> n"
    and al: "allocate_block s = Some (b, s1)" "b \<noteq> - 1"
    and wr: "write_block b buf s1 = Some (0, s2)"
    and pl: "place_double b l s2 = Some (Inr lp, s')"
  shows "copy_inv_at (n + 1) lp s'"
proof -
  let ?fi = "file_inode l" and ?m = "n - 2041"
  let ?ib = "indirect_block ?fi" and ?ibuf = "indirect_buf l"
  let ?L = "\<lambda>t d k. 0 < d k \<and> d k \<le> INT_MAX
              \<and> (\<exists>x. 0 < x \<and> x \<le> INT_MAX \<and> stores_ints t (d k) ((\<lambda>_. 0) (0 := x)))"
  from inv n have z0: "block_allocated s 0" by (simp add: copy_inv_at_def Let_def)
  note b_pos = allocate_block_zero(2)[OF al z0]
  note be = allocate_block_effect[OF al]
  have k02: "keeps s s2 {b}"
    using keeps_trans[OF keeps_alloc[OF al(1)] keeps_write[OF wr]] by simp
  have fresh_b: "c \<noteq> b" if "block_allocated s c" for c using that be(3) by auto
  from inv n have cnt: "indirect_count l = 1024" and nd: "num_direct ?fi = 1017"
    and si: "stores_ints s ?ib ?ibuf"
    and e1: "\<forall>k. int k < indirect_count l \<longrightarrow> 0 < ?ibuf k \<and> ?ibuf k \<le> INT_MAX"
    and e2: "\<forall>k. indirect_count l \<le> int k \<longrightarrow> ?ibuf k = 0"
    by (simp_all add: copy_inv_at_def Let_def)
  have si2: "stores_ints s2 ?ib ?ibuf"
    using keeps_stores[OF k02 si] fresh_b[OF stores_ints_allocated[OF si]] by simp
  have z2: "block_allocated s2 0" using keeps_allocated[OF k02 z0] .
  from pl obtain db dbuf0 s3 dbuf' l1c' l2c' s4 where
    ld: "load_double l s2 = Some (db, dbuf0, s3)" and db: "db \<noteq> - 1"
    and ol: "open_level1 dbuf0 (double_indirect_level1_count l)
               (double_indirect_level2_count l) s3 = Some (Inr (dbuf', l1c', l2c'), s4)"
    and sl: "store_level1 b db dbuf' l1c' l2c' l s4 = Some (Inr lp, s')"
    by (auto simp: place_double_def split: option.splits prod.splits if_splits sum.splits)
  have A: "double_indirect_level1_count l = ?m \<and> double_indirect_level2_count l < 1024
      \<and> stores_ints s3 db dbuf0 \<and> db \<noteq> ?ib
      \<and> (\<forall>k. int k < ?m \<longrightarrow> ?L s3 dbuf0 k \<and> dbuf0 k \<noteq> db \<and> dbuf0 k \<noteq> ?ib)
      \<and> (\<forall>k. ?m \<le> int k \<longrightarrow> dbuf0 k = 0)
      \<and> stores_ints s3 ?ib ?ibuf \<and> block_allocated s3 0"
    using double_loaded[OF inv n al wr ld db] by simp
  then have l1c: "double_indirect_level1_count l = ?m"
    and l2c: "double_indirect_level2_count l < 1024"
    and sd3: "stores_ints s3 db dbuf0" and ne: "db \<noteq> ?ib"
    and lv3: "\<forall>k. int k < ?m \<longrightarrow> ?L s3 dbuf0 k \<and> dbuf0 k \<noteq> db \<and> dbuf0 k \<noteq> ?ib"
    and dz: "\<forall>k. ?m \<le> int k \<longrightarrow> dbuf0 k = 0"
    and si3: "stores_ints s3 ?ib ?ibuf" and z3: "block_allocated s3 0"
    by simp_all
  from n have m0: "0 \<le> ?m" by simp
  from dz m0 have dm: "dbuf0 (nat ?m) = 0" by simp
  from open_level1_new[OF _ dm ol[unfolded l1c]] l2c obtain nl where
    fr: "\<not> block_allocated s3 nl" and nl: "0 \<le> nl" "nl \<le> INT_MAX" "0 < nl"
    and d': "dbuf' = dbuf0 (nat ?m := nl)" and c': "l1c' = ?m + 1" "l2c' = 0"
    and inb: "in_bounds ?m PTRS_PER_BLOCK"
    and sn: "stores_ints s4 nl (\<lambda>_. 0)" and k34: "keeps s3 s4 {nl}"
    using z3 by (auto simp: PTRS_PER_BLOCK_1024)
  have fresh_nl: "c \<noteq> nl" if "block_allocated s3 c" for c using that fr by auto
  have nl_db: "db \<noteq> nl" using fresh_nl[OF stores_ints_allocated[OF sd3]] .
  have nl_ib: "?ib \<noteq> nl" using fresh_nl[OF stores_ints_allocated[OF si3]] .
  have idx: "dbuf' (nat (l1c' - 1)) = nl" using d' c' by simp
  have sn': "stores_ints s4 (dbuf' (nat (l1c' - 1))) (\<lambda>_. 0)" using sn idx by simp
  have ad4: "block_allocated s4 db"
    using keeps_allocated[OF k34 stores_ints_allocated[OF sd3]] .
  note st = store_level1_spec[OF sn' ad4 _ sl[unfolded c'(2)], unfolded idx, OF nl_db]
  have si': "stores_ints s' ?ib ?ibuf"
    using keeps_stores[OF st(4) keeps_stores[OF k34 si3]] nl_ib ne by auto
  have z': "block_allocated s' 0"
    using keeps_allocated[OF st(4) keeps_allocated[OF k34 z3]] .
  from inb have m1: "?m < 1024" by (simp add: in_bounds_def PTRS_PER_BLOCK_1024)
  have lv': "\<forall>k. int k < ?m + 1 \<longrightarrow> ?L s' dbuf' k \<and> dbuf' k \<noteq> db \<and> dbuf' k \<noteq> ?ib"
  proof (intro allI impI)
    fix k assume k: "int k < ?m + 1"
    show "?L s' dbuf' k \<and> dbuf' k \<noteq> db \<and> dbuf' k \<noteq> ?ib"
    proof (cases "k = nat ?m")
      case True
      with d' have "dbuf' k = nl" by simp
      with st(2) nl nl_db nl_ib b_pos be(2) show ?thesis by auto
    next
      case False
      with k m0 have k': "int k < ?m" by linarith
      from lv3[rule_format, OF k'] obtain x where x: "0 < x" "x \<le> INT_MAX"
        "stores_ints s3 (dbuf0 k) ((\<lambda>_. 0) (0 := x))"
        and r: "0 < dbuf0 k" "dbuf0 k \<le> INT_MAX" "dbuf0 k \<noteq> db" "dbuf0 k \<noteq> ?ib" by blast
      from fresh_nl[OF stores_ints_allocated[OF x(3)]] have "dbuf0 k \<noteq> nl" .
      with keeps_stores[OF st(4) keeps_stores[OF k34 x(3)]] r(3)
      have "stores_ints s' (dbuf0 k) ((\<lambda>_. 0) (0 := x))" by auto
      with x(1,2) r False d' show ?thesis by auto
    qed
  qed
  have dz': "\<forall>k. ?m + 1 \<le> int k \<longrightarrow> dbuf' k = 0"
    using dz d' m0 by auto
  from n cnt nd si' z' e1 e2 m1 st(3) ne lv' dz' show ?thesis
    unfolding st(1) copy_inv_at_def Let_def c' by simp
qed

lemma copy_inv_add_block:
  assumes "copy_inv l s" "add_block chunk l s = Some (Inr l', s')"
  shows "copy_inv l' s' \<and> total_blocks l' = total_blocks l + 1"
proof -
  let ?n = "total_blocks l"
  from assms(1) have inv: "copy_inv_at ?n l s" by (simp add: copy_inv_def)
  from add_block_InrE[OF assms(2)] obtain b s1 s2 lp where
    al: "allocate_block s = Some (b, s1)" "b \<noteq> - 1"
    and wr: "write_block b (block_of_bytes chunk) s1 = Some (0, s2)"
    and pl: "(if ?n < int MAX_DIRECT_BLOCKS then place_direct b l s2
      else if ?n < int (MAX_DIRECT_BLOCKS + PTRS_PER_BLOCK)
      then place_indirect b l s2 else place_double b l s2) = Some (Inr lp, s')"
    and l': "l' = lp \<lparr> total_blocks := total_blocks lp + 1,
               file_inode := (file_inode lp)
                  \<lparr> i_size := i_size (file_inode lp) + word_of_nat (length chunk) \<rparr> \<rparr>"
    by blast
  have tb: "total_blocks lp = ?n"
    using pl
    by (auto simp: place_direct_def place_indirect_def place_double_def store_level1_def Let_def
        split: if_splits option.splits prod.splits sum.splits)
  have "copy_inv_at (?n + 1) lp s'"
  proof (cases "?n < 1017")
    case True
    with pl have "place_direct b l s2 = Some (Inr lp, s')" by (simp add: MAX_DIRECT_BLOCKS_def)
    from copy_step_direct[OF inv True al wr this] show ?thesis .
  next
    case False
    show ?thesis
    proof (cases "?n < 2041")
      case True
      with False pl have "place_indirect b l s2 = Some (Inr lp, s')"
        by (simp add: MAX_DIRECT_BLOCKS_def PTRS_PER_BLOCK_1024)
      from copy_step_indirect[OF inv _ True al wr this] False show ?thesis by simp
    next
      case n: False
      with False pl have "place_double b l s2 = Some (Inr lp, s')"
        by (simp add: MAX_DIRECT_BLOCKS_def PTRS_PER_BLOCK_1024)
      from copy_step_double[OF inv _ al wr this] n show ?thesis by simp
    qed
  qed
  with tb show ?thesis unfolding l' copy_inv_def by (simp add: copy_inv_at_final)
qed

lemma copy_inv_init: "copy_inv init_locals s"
  by (simp add: copy_inv_def copy_inv_at_def init_locals_def new_file_inode_def)

lemma copy_inv_add_blocks:
  assumes "copy_inv l s" "add_blocks chunks l s = Some (Inr l', s')"
  shows "copy_inv l' s' \<and> total_blocks l' = total_blocks l + int (length chunks)"
  using assms
proof (induction chunks arbitrary: l s)
  case Nil
  then show ?case by simp
next
  case (Cons c cs)
  from Cons.prems(2) obtain l1 s1 where a: "add_block c l s = Some (Inr l1, s1)"
    and r: "add_blocks cs l1 s1 = Some (Inr l', s')"
    by (auto split: option.splits sum.splits prod.splits)
  from copy_inv_add_block[OF Cons.prems(1) a] Cons.IH[OF _ r] show ?case by simp
qed


lemma length_chunks_of: "length (chunks_of bs) = (length bs + (BLOCK_SIZE - 1)) div BLOCK_SIZE"
proof (induction bs rule: chunks_of.induct)
  case (1 bs)
  show ?case
  proof (cases "bs = []")
    case True
    then show ?thesis by (simp add: chunks_of.simps[of "[]"] BLOCK_SIZE_def)
  next
    case False
    then have pos: "0 < length bs" by simp
    have ar: "Suc ((n - 4096 + 4095) div 4096) = (n + 4095) div 4096" if "0 < n" for n :: nat
    proof (cases "n < 4096")
      case True
      with that show ?thesis by simp
    next
      case False
      then obtain k where "n = k + 4096" by (metis le_add_diff_inverse2 not_less)
      then show ?thesis by simp
    qed
    from 1[OF False] False ar[OF pos] show ?thesis
      by (simp add: chunks_of.simps[of bs] BLOCK_SIZE_def)
  qed
qed

section \<open>The copy loop completes when there is room\<close>

lemma room_mono: "room s k \<Longrightarrow> j \<le> k \<Longrightarrow> room s j"
proof -
  assume a: "room s k" "j \<le> k"
  then have "(int (length (data_segs s)) + int j) * int blocks_per_segment
      \<le> (int (length (data_segs s)) + int k) * int blocks_per_segment"
    by (intro mult_right_mono) simp_all
  with a show ?thesis by (simp add: room_def)
qed

lemma length_seg_store:
  "length (seg_store segs n v) = (if n < length segs then length segs else Suc n)"
  by (simp add: seg_store_def)

lemma data_seg_of_Some_length: "data_seg_of s n = Some seg \<Longrightarrow> n < length (data_segs s)"
  by (auto simp: data_seg_of_def seg_lookup_def split: if_splits)

lemma allocate_block_loop_room:
  assumes "n \<le> length (data_segs s)" "room s (Suc k)"
  shows "\<exists>b s'. allocate_block_loop n s = Some (b, s') \<and> b \<noteq> - 1 \<and> room s' k"
  using assms
proof (induction n s rule: allocate_block_loop.induct)
  case (1 n s)
  from "1.prems"(2) have hf: "Suc k \<le> host_free s"
    and bd: "(int (length (data_segs s)) + int (Suc k)) * 255 \<le> INT_MAX"
    by (simp_all add: room_def blocks_per_segment_255)
  show ?case
  proof (cases "data_seg_of s n")
    case None
    let ?s0 = "s\<lparr>host_free := host_free s - 1\<rparr>"
    let ?s1 = "put_data_seg n zero_data_seg ?s0"
    from hf have "0 < host_free s" by simp
    from open_data_seg_absent[OF None this]
    have oc: "open_or_create_data_seg n s = Some (True, ?s1)" .
    have sg: "data_seg_of ?s1 n = Some zero_data_seg" by simp
    have f: "find_free_bit (dbitmap zero_data_seg) blocks_per_segment = 0"
      by (simp add: zero_data_seg_def find_free_bit_zero blocks_per_segment_255)
    let ?s' = "put_data_seg n (zero_data_seg\<lparr>dbitmap := set_bit_bm (dbitmap zero_data_seg) 0\<rparr>) ?s1"
    have len: "length (data_segs ?s') \<le> Suc (length (data_segs s))"
      using "1.prems"(1) by (simp add: put_data_seg_def length_seg_store)
    have "int n * 255 \<le> int (length (data_segs s)) * 255"
      using "1.prems"(1) by simp
    with bd have le: "\<not> int n * int blocks_per_segment + 0 > INT_MAX"
      by (simp add: blocks_per_segment_255 algebra_simps)
    have "room ?s' k"
    proof -
      have "(int (length (data_segs ?s')) + int k) * 255
              \<le> (int (length (data_segs s)) + int (Suc k)) * 255"
        using len by simp
      with bd hf show ?thesis by (simp add: room_def blocks_per_segment_255 put_data_seg_def)
    qed
    moreover have "allocate_block_loop n s = Some (int n * int blocks_per_segment, ?s')"
      using oc sg f le by (simp add: allocate_block_loop.simps[of n s])
    moreover have "int n * int blocks_per_segment \<noteq> - 1"
    proof -
      have "0 \<le> int n * int blocks_per_segment" by simp
      then show ?thesis by linarith
    qed
    ultimately show ?thesis by blast
  next
    case (Some seg)
    note lt = data_seg_of_Some_length[OF Some]
    from open_data_seg_present[OF Some]
    have oc: "open_or_create_data_seg n s = Some (True, s)" .
    let ?f = "find_free_bit (dbitmap seg) blocks_per_segment"
    show ?thesis
    proof (cases "0 \<le> ?f")
      case True
      from find_free_bit_lowest[OF True] have "nat ?f < 255"
        by (simp add: blocks_per_segment_255)
      then have fl: "?f < 255" by linarith
      let ?s' = "put_data_seg n (seg\<lparr>dbitmap := set_bit_bm (dbitmap seg) (nat ?f)\<rparr>) s"
      have "int n + 1 \<le> int (length (data_segs s))" using lt by simp
      then have "(int n + 1) * 255 \<le> int (length (data_segs s)) * 255" by simp
      with fl bd have le: "\<not> int n * int blocks_per_segment + ?f > INT_MAX"
        by (simp add: blocks_per_segment_255 algebra_simps)
      have len: "length (data_segs ?s') = length (data_segs s)"
        using lt by (simp add: put_data_seg_def length_seg_store)
      have "room ?s' k"
        using room_mono[OF "1.prems"(2), of k] len by (simp add: room_def put_data_seg_def)
      moreover have "allocate_block_loop n s
           = Some (int n * int blocks_per_segment + ?f, ?s')"
        using oc Some True le by (simp add: allocate_block_loop.simps[of n s] Let_def)
      moreover have "int n * int blocks_per_segment + ?f \<noteq> - 1"
      proof -
        have "0 \<le> int n * int blocks_per_segment" by simp
        with True show ?thesis by linarith
      qed
      ultimately show ?thesis by blast
    next
      case False
      from lt have "Suc n \<le> length (data_segs s)" by simp
      from "1.IH"[OF oc refl refl Some refl refl _ this "1.prems"(2)] False
      obtain b s' where "allocate_block_loop (Suc n) s = Some (b, s')" "b \<noteq> - 1" "room s' k"
        by auto
      with oc Some False show ?thesis
        by (simp add: allocate_block_loop.simps[of n s] Let_def)
    qed
  qed
qed

lemma allocate_block_room:
  assumes "room s (Suc k)"
  shows "\<exists>b s'. allocate_block s = Some (b, s') \<and> b \<noteq> - 1 \<and> room s' k"
  using allocate_block_loop_room[of 0 s k] assms by (simp add: allocate_block_def)

lemma write_block_room:
  assumes "write_block c buf s = Some (rc, s')"
  shows "room s' k = room s k"
proof -
  have "length (data_segs s') = length (data_segs s)"
    using assms
    by (auto simp: write_block_def Let_def put_data_seg_def length_seg_store
        split: if_splits option.splits dest: data_seg_of_Some_length)
  with write_block_effect(8)[OF assms] show ?thesis by (simp add: room_def)
qed


lemma place_indirect_progress:
  assumes inv: "copy_inv_at n l s" and n: "1017 \<le> n" "n < 2041"
    and al: "allocate_block s = Some (b, s1)" "b \<noteq> - 1"
    and wr: "write_block b buf s1 = Some (0, s2)"
    and rm: "room s2 (Suc k)"
  shows "\<exists>lp s'. place_indirect b l s2 = Some (Inr lp, s') \<and> room s' k"
proof -
  let ?fi = "file_inode l"
  have k02: "keeps s s2 {b}"
    using keeps_trans[OF keeps_alloc[OF al(1)] keeps_write[OF wr]] by simp
  from inv n have cnt: "indirect_count l = n - 1017" by (simp add: copy_inv_at_def Let_def)
  have "\<exists>ib buf0 s3. load_indirect l s2 = Some (ib, buf0, s3) \<and> 0 \<le> ib \<and> room s3 k"
  proof (cases "n = 1017")
    case True
    with inv have "indirect_block ?fi = - 1" by (simp add: copy_inv_at_def Let_def)
    moreover from allocate_block_room[OF rm] obtain ib s3 where
      a: "allocate_block s2 = Some (ib, s3)" "ib \<noteq> - 1" "room s3 k" by blast
    ultimately show ?thesis using allocate_block_effect(1)[OF a(1,2)]
      by (simp add: load_indirect_def)
  next
    case False
    with n inv have si: "stores_ints s (indirect_block ?fi) (indirect_buf l)"
      by (simp add: copy_inv_at_def Let_def)
    from stores_ints_alloc(2)[OF si al] have "b \<noteq> indirect_block ?fi" .
    with keeps_stores[OF k02 si] have "stores_ints s2 (indirect_block ?fi) (indirect_buf l)" by simp
    with room_mono[OF rm, of k] show ?thesis
      by (auto simp: load_indirect_def stores_ints_def)
  qed
  then obtain ib buf0 s3 where ld: "load_indirect l s2 = Some (ib, buf0, s3)"
    and ib: "0 \<le> ib" and r3: "room s3 k" by blast
  from write_block_defined[OF ib, of "block_of_ints (buf0 (nat (indirect_count l) := b))" s3]
  obtain rc s' where w: "write_block ib (block_of_ints (buf0 (nat (indirect_count l) := b))) s3
      = Some (rc, s')" by blast
  have "in_bounds (indirect_count l) PTRS_PER_BLOCK"
    using cnt n by (simp add: in_bounds_def PTRS_PER_BLOCK_1024)
  with ld ib w have "\<exists>lp. place_indirect b l s2 = Some (Inr lp, s')"
    by (simp add: place_indirect_def Let_def)
  with write_block_room[OF w, of k] r3 show ?thesis by auto
qed

lemma place_double_progress:
  assumes inv: "copy_inv_at n l s" and n: "2041 \<le> n" "n < 3065"
    and al: "allocate_block s = Some (b, s1)" "b \<noteq> - 1"
    and wr: "write_block b buf s1 = Some (0, s2)"
    and rm: "room s2 (Suc (Suc k))"
  shows "\<exists>lp s'. place_double b l s2 = Some (Inr lp, s') \<and> room s' k"
proof -
  let ?fi = "file_inode l" and ?m = "n - 2041"
  have k02: "keeps s s2 {b}"
    using keeps_trans[OF keeps_alloc[OF al(1)] keeps_write[OF wr]] by simp
  have "\<exists>db dbuf0 s3. load_double l s2 = Some (db, dbuf0, s3) \<and> db \<noteq> - 1 \<and> room s3 (Suc k)"
  proof (cases "n = 2041")
    case True
    with inv have d: "double_indirect_block ?fi = - 1" by (simp add: copy_inv_at_def Let_def)
    from allocate_block_room[OF rm] obtain db s2a where
      a: "allocate_block s2 = Some (db, s2a)" "db \<noteq> - 1" "room s2a (Suc k)" by blast
    from write_block_defined[OF allocate_block_effect(1)[OF a(1,2)], of "block_of_ints (\<lambda>_. 0)" s2a]
    obtain rc s3 where w: "write_block db (block_of_ints (\<lambda>_. 0)) s2a = Some (rc, s3)" by blast
    from d a w write_block_room[OF w, of "Suc k"] show ?thesis
      by (simp add: load_double_def)
  next
    case False
    with n inv have sd: "stores_ints s (double_indirect_block ?fi) (double_indirect_buf l)"
      by (simp add: copy_inv_at_def Let_def)
    from stores_ints_alloc(2)[OF sd al] have "b \<noteq> double_indirect_block ?fi" .
    with keeps_stores[OF k02 sd]
    have "stores_ints s2 (double_indirect_block ?fi) (double_indirect_buf l)" by simp
    with room_mono[OF rm, of "Suc k"] show ?thesis
      by (auto simp: load_double_def stores_ints_def)
  qed
  then obtain db dbuf0 s3 where ld: "load_double l s2 = Some (db, dbuf0, s3)"
    and db: "db \<noteq> - 1" and r3: "room s3 (Suc k)" by blast
  from double_loaded[OF inv n(1) al wr ld db]
  have l1c: "double_indirect_level1_count l = ?m"
    and l2c: "double_indirect_level2_count l < 1024"
    and sd3: "stores_ints s3 db dbuf0"
    and dz: "\<forall>k. ?m \<le> int k \<longrightarrow> dbuf0 k = 0"
    by simp_all
  from n have inb: "in_bounds ?m PTRS_PER_BLOCK"
    by (simp add: in_bounds_def PTRS_PER_BLOCK_1024)
  from dz n have dm: "dbuf0 (nat ?m) = 0" by simp
  from allocate_block_room[OF r3] obtain nl s3a where
    a: "allocate_block s3 = Some (nl, s3a)" "nl \<noteq> - 1" "room s3a k" by blast
  note nl0 = allocate_block_effect(1)[OF a(1,2)]
  from write_block_defined[OF nl0, of "block_of_ints (\<lambda>_. 0)" s3a]
  obtain rc s4 where w: "write_block nl (block_of_ints (\<lambda>_. 0)) s3a = Some (rc, s4)" by blast
  have ol: "open_level1 dbuf0 ?m (double_indirect_level2_count l) s3
      = Some (Inr (dbuf0 (nat ?m := nl), ?m + 1, 0), s4)"
    using inb dm a w by (simp add: open_level1_def)
  have r4: "room s4 k" using write_block_room[OF w, of k] a(3) by simp
  have sn: "stores_ints s4 nl (\<lambda>_. 0)"
    by (rule stores_ints_write_same[OF allocate_block_effect(4)[OF a(1,2)] w])
  let ?d' = "dbuf0 (nat ?m := nl)"
  from sd3 have db0: "0 \<le> db" by (simp add: stores_ints_def)
  from write_block_defined[OF nl0, of "block_of_ints ((\<lambda>_. 0) (0 := b))" s4]
  obtain rc1 s5 where w1: "write_block nl (block_of_ints ((\<lambda>_. 0) (0 := b))) s4 = Some (rc1, s5)"
    by blast
  from write_block_defined[OF db0, of "block_of_ints ?d'" s5]
  obtain rc2 s' where w2: "write_block db (block_of_ints ?d') s5 = Some (rc2, s')" by blast
  have "\<exists>lp. store_level1 b db ?d' (?m + 1) 0 l s4 = Some (Inr lp, s')"
    using inb sn w1 w2 n
    by (simp add: store_level1_def in_bounds_def PTRS_PER_BLOCK_1024 stores_ints_def Let_def
        ints_of_zero_ints)
  with ld db ol l1c have "\<exists>lp. place_double b l s2 = Some (Inr lp, s')"
    by (auto simp: place_double_def)
  moreover have "room s' k"
    using write_block_room[OF w2, of k] write_block_room[OF w1, of k] r4 by simp
  ultimately show ?thesis by blast
qed

lemma add_block_progress:
  assumes "copy_inv l s" "total_blocks l < 3065" "room s (k + 3)"
  shows "\<exists>l' s'. add_block chunk l s = Some (Inr l', s') \<and> room s' k"
proof -
  let ?n = "total_blocks l"
  from assms(1) have inv: "copy_inv_at ?n l s" by (simp add: copy_inv_def)
  have "room s (Suc (k + 2))" using assms(3) by (simp add: numeral_3_eq_3)
  from allocate_block_room[OF this] obtain b s1 where
    al: "allocate_block s = Some (b, s1)" "b \<noteq> - 1" and r1: "room s1 (k + 2)" by blast
  note e = allocate_block_effect[OF al]
  from write_block_allocated[OF e(8) e(1), of "block_of_bytes chunk"] obtain s2
    where wr: "write_block b (block_of_bytes chunk) s1 = Some (0, s2)" by blast
  have r2: "room s2 (Suc (Suc k))" using write_block_room[OF wr] r1 by simp
  have "\<exists>lp s'. (if ?n < int MAX_DIRECT_BLOCKS then place_direct b l s2
      else if ?n < int (MAX_DIRECT_BLOCKS + PTRS_PER_BLOCK)
      then place_indirect b l s2 else place_double b l s2) = Some (Inr lp, s') \<and> room s' k"
  proof (cases "?n < 1017")
    case True
    from inv True have "in_bounds (num_direct (file_inode l)) MAX_DIRECT_BLOCKS"
      by (simp add: copy_inv_at_def Let_def in_bounds_def MAX_DIRECT_BLOCKS_def)
    with True room_mono[OF r2, of k] show ?thesis
      by (simp add: place_direct_def Let_def MAX_DIRECT_BLOCKS_def)
  next
    case False
    show ?thesis
    proof (cases "?n < 2041")
      case True
      from place_indirect_progress[OF inv _ True al wr r2] False
      obtain lp s' where "place_indirect b l s2 = Some (Inr lp, s')" "room s' (Suc k)" by auto
      with room_mono[of s' "Suc k" k] True False show ?thesis
        by (auto simp: MAX_DIRECT_BLOCKS_def PTRS_PER_BLOCK_1024)
    next
      case n: False
      from place_double_progress[OF inv _ assms(2) al wr r2] n
      obtain lp s' where "place_double b l s2 = Some (Inr lp, s')" "room s' k" by auto
      with n False show ?thesis
        by (auto simp: MAX_DIRECT_BLOCKS_def PTRS_PER_BLOCK_1024)
    qed
  qed
  then obtain lp s' where "(if ?n < int MAX_DIRECT_BLOCKS then place_direct b l s2
      else if ?n < int (MAX_DIRECT_BLOCKS + PTRS_PER_BLOCK)
      then place_indirect b l s2 else place_double b l s2) = Some (Inr lp, s')" "room s' k"
    by blast
  with al wr show ?thesis by (simp add: add_block_def)
qed

lemma add_blocks_progress:
  assumes "copy_inv l s" "total_blocks l + int (length chunks) \<le> 3065"
    and "room s (3 * length chunks)"
  shows "\<exists>l' s'. add_blocks chunks l s = Some (Inr l', s')"
  using assms
proof (induction chunks arbitrary: l s)
  case Nil
  then show ?case by simp
next
  case (Cons c cs)
  have "room s (3 * length cs + 3)" using Cons.prems(3) by (simp add: algebra_simps)
  from add_block_progress[OF Cons.prems(1) _ this, of c] Cons.prems(2)
  obtain l1 s1 where a: "add_block c l s = Some (Inr l1, s1)" and r: "room s1 (3 * length cs)"
    by auto
  from copy_inv_add_block[OF Cons.prems(1) a] have i1: "copy_inv l1 s1"
    and t: "total_blocks l1 = total_blocks l + 1" by simp_all
  from Cons.IH[OF i1 _ r] t Cons.prems(2) a show ?case by auto
qed

section \<open>Files beyond 3065 blocks\<close>



section \<open>The block map of the double-indirect branch\<close>

lemma ints_one_entry:
  assumes "0 < x" "x \<le> INT_MAX"
  shows "ints_of_block (block_of_ints ((\<lambda>_. 0) (0 := x))) = (\<lambda>_. 0) (0 := x)"
  by (rule ints_roundtrip_fun) (use assms in \<open>auto simp: INT_MAX_def PTRS_PER_BLOCK_1024\<close>)

text \<open>
  C2 (what the code does). After the copy loop has placed \<open>n > 2041\<close> blocks, the
  double-indirect block on the disk has exactly \<open>n - 2041\<close> non-zero entries, one for each
  block of the double-indirect range, and the level-1 block of each entry holds a single
  block, at slot 0. So logical block \<open>L \<ge> 2041\<close> is reached through slot \<open>L - 2041\<close> of the
  double-indirect block and slot 0 of that level-1 block; slot 1 of the first level-1
  block, where the contract puts logical block 2042, is empty.
\<close>

theorem double_range_one_block_per_level1:
  assumes "add_blocks chunks init_locals s = Some (Inr l, s')" and "2041 < length chunks"
  shows "\<exists>bD. read_block (double_indirect_block (file_inode l)) s' = Some (Some bD)
     \<and> (\<forall>j. int j < int (length chunks) - 2041 \<longrightarrow>
           ints_of_block bD j \<noteq> 0
           \<and> (\<exists>bj. read_block (ints_of_block bD j) s' = Some (Some bj)
                  \<and> ints_of_block bj 0 \<noteq> 0 \<and> (\<forall>i>0. ints_of_block bj i = 0)))
     \<and> (\<forall>j. int (length chunks) - 2041 \<le> int j \<longrightarrow> ints_of_block bD j = 0)"
proof -
  let ?n = "int (length chunks)" and ?d = "double_indirect_buf l"
  from copy_inv_add_blocks[OF copy_inv_init assms(1)]
  have inv: "copy_inv_at ?n l s'" by (auto simp: copy_inv_def init_locals_def)
  with assms(2) have m: "?n - 2041 \<le> 1024"
    and sd: "stores_ints s' (double_indirect_block (file_inode l)) ?d"
    and lv: "\<forall>k. int k < ?n - 2041 \<longrightarrow> 0 < ?d k \<and> ?d k \<le> INT_MAX
               \<and> (\<exists>x. 0 < x \<and> x \<le> INT_MAX \<and> stores_ints s' (?d k) ((\<lambda>_. 0) (0 := x)))"
    and dz: "\<forall>k. ?n - 2041 \<le> int k \<longrightarrow> ?d k = 0"
    by (simp_all add: copy_inv_at_def Let_def)
  have rt: "ints_of_block (block_of_ints ?d) = ?d"
  proof (rule ints_roundtrip_fun)
    show "\<forall>k. - (2 ^ 31) \<le> ?d k \<and> ?d k < 2 ^ 31"
    proof
      fix k show "- (2 ^ 31) \<le> ?d k \<and> ?d k < 2 ^ 31"
        using lv[rule_format, of k] dz[rule_format, of k]
        by (cases "int k < ?n - 2041") (auto simp: INT_MAX_def)
    qed
    show "\<forall>k\<ge>PTRS_PER_BLOCK. ?d k = 0" using dz m by (simp add: PTRS_PER_BLOCK_1024)
  qed
  have "\<forall>j. int j < ?n - 2041 \<longrightarrow>
           ?d j \<noteq> 0
           \<and> (\<exists>bj. read_block (?d j) s' = Some (Some bj)
                  \<and> ints_of_block bj 0 \<noteq> 0 \<and> (\<forall>i>0. ints_of_block bj i = 0))"
  proof (intro allI impI)
    fix j assume "int j < ?n - 2041"
    from lv[rule_format, OF this] obtain x where p: "0 < ?d j" and x: "0 < x" "x \<le> INT_MAX"
      and st: "stores_ints s' (?d j) ((\<lambda>_. 0) (0 := x))" by blast
    from st have "read_block (?d j) s' = Some (Some (block_of_ints ((\<lambda>_. 0) (0 := x))))"
      by (simp add: stores_ints_def)
    with p x ints_one_entry[OF x] show "?d j \<noteq> 0
           \<and> (\<exists>bj. read_block (?d j) s' = Some (Some bj)
                  \<and> ints_of_block bj 0 \<noteq> 0 \<and> (\<forall>i>0. ints_of_block bj i = 0))" by simp
  qed
  with sd rt dz show ?thesis by (simp add: stores_ints_def)
qed

lemma room_fresh: "room (fresh_fs\<lparr>host_free := 7000\<rparr>) (3 * 2043)"
  by (simp add: room_def fresh_fs_def blocks_per_segment_255 INT_MAX_def)

lemma length_chunks_2043: "length (chunks_of (replicate (2043 * 4096) (1 :: byte))) = 2043"
  by (simp add: length_chunks_of BLOCK_SIZE_def)

theorem double_range_one_block_per_level1_witness:
  "\<exists>l s' bD b0. add_blocks (chunks_of (replicate (2043 * 4096) 1)) init_locals
                    (fresh_fs\<lparr>host_free := 7000\<rparr>) = Some (Inr l, s')
     \<and> read_block (double_indirect_block (file_inode l)) s' = Some (Some bD)
     \<and> ints_of_block bD 1 \<noteq> 0
     \<and> read_block (ints_of_block bD 0) s' = Some (Some b0)
     \<and> ints_of_block b0 0 \<noteq> 0 \<and> ints_of_block b0 1 = 0"
proof -
  let ?c = "chunks_of (replicate (2043 * 4096) (1 :: byte))"
  let ?s = "fresh_fs\<lparr>host_free := 7000\<rparr>"
  have "\<exists>l s'. add_blocks ?c init_locals ?s = Some (Inr l, s')"
  proof (rule add_blocks_progress[OF copy_inv_init])
    show "total_blocks init_locals + int (length ?c) \<le> 3065"
      unfolding length_chunks_2043 by (simp add: init_locals_def)
    show "room ?s (3 * length ?c)"
      unfolding length_chunks_2043 by (rule room_fresh)
  qed
  then obtain l s' where a: "add_blocks ?c init_locals ?s = Some (Inr l, s')" by blast
  have h: "2041 < length ?c" unfolding length_chunks_2043 by simp
  from double_range_one_block_per_level1[OF a h] obtain bD where
    r: "read_block (double_indirect_block (file_inode l)) s' = Some (Some bD)"
    and e: "\<forall>j. int j < int (length ?c) - 2041 \<longrightarrow>
           ints_of_block bD j \<noteq> 0
           \<and> (\<exists>bj. read_block (ints_of_block bD j) s' = Some (Some bj)
                  \<and> ints_of_block bj 0 \<noteq> 0 \<and> (\<forall>i>0. ints_of_block bj i = 0))"
    by blast
  note e' = e[unfolded length_chunks_2043]
  from e'[rule_format, of 1] have e1: "ints_of_block bD 1 \<noteq> 0" by simp
  from e'[rule_format, of 0] obtain b0 where
    "read_block (ints_of_block bD 0) s' = Some (Some b0)" "ints_of_block b0 0 \<noteq> 0"
    "\<forall>i>0. ints_of_block b0 i = 0"
    by auto
  with a r e1 show ?thesis by auto
qed

section \<open>Block 0\<close>




section \<open>The capacity of a directory block\<close>

lemma bytes_to_int_range: "- (2 ^ 31) \<le> bytes_to_int a b c d \<and> bytes_to_int a b c d < 2 ^ 31"
proof -
  let ?w = "(ucast a OR push_bit 8 (ucast b) OR push_bit 16 (ucast c)
            OR push_bit 24 (ucast d)) :: 32 word"
  from sint_range_size[of ?w] show ?thesis
    by (simp add: bytes_to_int_def word_size)
qed

lemma find_free_entry_Some:
  assumes "find_free_entry es = Some j"
  shows "j < DIR_ENTRIES_PER_BLOCK" "inode_num (es j) = - 1" "\<forall>m<j. inode_num (es m) \<noteq> - 1"
proof -
  from assms obtain i where i: "i < DIR_ENTRIES_PER_BLOCK" "inode_num (es ([0..<DIR_ENTRIES_PER_BLOCK] ! i)) = - 1"
    "j = [0..<DIR_ENTRIES_PER_BLOCK] ! i"
    "\<forall>m<i. inode_num (es ([0..<DIR_ENTRIES_PER_BLOCK] ! m)) \<noteq> - 1"
    by (auto simp: find_free_entry_def find_Some_iff)
  from i(1,3) have ji: "j = i" by simp
  with i show "j < DIR_ENTRIES_PER_BLOCK" "inode_num (es j) = - 1" by simp_all
  show "\<forall>m<j. inode_num (es m) \<noteq> - 1"
  proof (intro allI impI)
    fix m assume "m < j"
    with ji i(1) i(4)[rule_format, of m] show "inode_num (es m) \<noteq> - 1" by simp
  qed
qed

lemma find_free_entry_None:
  assumes "find_free_entry es = None"
  shows "\<forall>j<DIR_ENTRIES_PER_BLOCK. inode_num (es j) \<noteq> - 1"
  using assms by (auto simp: find_free_entry_def find_None_iff)

lemma entry_roundtrip_update:
  assumes "j' < DIR_ENTRIES_PER_BLOCK" "- (2 ^ 31) \<le> c" "c < 2 ^ 31"
  shows "entries_of_block (block_of_entries ((entries_of_block b)
            (j := \<lparr> name = strncpy_name nm, inode_num = c \<rparr>))) j'
         = ((entries_of_block b) (j := \<lparr> name = strncpy_name nm, inode_num = c \<rparr>)) j'"
proof (rule entries_of_block_of_entries[OF assms(1)])
  let ?es = "(entries_of_block b) (j := \<lparr> name = strncpy_name nm, inode_num = c \<rparr>)"
  show "- (2 ^ 31) \<le> inode_num (?es j')" "inode_num (?es j') < 2 ^ 31"
    using assms(2,3) bytes_to_int_range by (auto simp: entries_of_block_def)
  show "\<forall>k\<ge>MAX_FILENAME. name (?es j') k = 0"
    using strncpy_name_beyond by (auto simp: entries_of_block_def)
qed

lemma fresh_entries_roundtrip:
  assumes "j < DIR_ENTRIES_PER_BLOCK" "- (2 ^ 31) \<le> c" "c < 2 ^ 31"
  shows "entries_of_block (block_of_entries (fresh_entries nm c)) j = fresh_entries nm c j"
proof (rule entries_of_block_of_entries[OF assms(1)])
  show "- (2 ^ 31) \<le> inode_num (fresh_entries nm c j)" "inode_num (fresh_entries nm c j) < 2 ^ 31"
    using assms(2,3) by (auto simp: fresh_entries_def)
  show "\<forall>k\<ge>MAX_FILENAME. name (fresh_entries nm c j) k = 0"
    using strncpy_name_beyond by (auto simp: fresh_entries_def)
qed


lemma dir_filledD:
  assumes "dir_filled d s k"
  shows "num_direct d = int ((k + 14) div 15)" "(k + 14) div 15 \<le> 1017"
    "\<And>i. i < (k + 14) div 15 \<Longrightarrow> block_allocated s (direct_blocks d i)"
    "\<And>i. i < (k + 14) div 15 \<Longrightarrow> \<exists>b. read_block (direct_blocks d i) s = Some (Some b)
          \<and> (\<forall>j<15. (inode_num (entries_of_block b j) \<noteq> - 1) = (i * 15 + j < k))"
  using assms
  by (simp_all add: dir_filled_def Let_def DIR_ENTRIES_PER_BLOCK_15 MAX_DIRECT_BLOCKS_def)

lemma dir_filledI:
  assumes "num_direct d = int ((k + 14) div 15)" "(k + 14) div 15 \<le> 1017"
    "\<And>i. i < (k + 14) div 15 \<Longrightarrow> block_allocated s (direct_blocks d i)"
    "\<And>i. i < (k + 14) div 15 \<Longrightarrow> \<exists>b. read_block (direct_blocks d i) s = Some (Some b)
          \<and> (\<forall>j<15. (inode_num (entries_of_block b j) \<noteq> - 1) = (i * 15 + j < k))"
  shows "dir_filled d s k"
  using assms
  by (simp add: dir_filled_def Let_def DIR_ENTRIES_PER_BLOCK_15 MAX_DIRECT_BLOCKS_def)

text \<open>The first loop of \<^verbatim>\<open>add_entry_to_dir\<close> on a directory that has only grown: it fills
  the first free slot of the last block, or finds every block full.\<close>

lemma add_entry_scan_filled:
  assumes F: "dir_filled d s k" and c: "c \<noteq> - 1" "- (2 ^ 31) \<le> c" "c < 2 ^ 31"
  shows "i \<le> (k + 14) div 15 \<Longrightarrow> add_entry_scan d nm c i s = Some (placed, s1) \<Longrightarrow>
     (if k mod 15 = 0 \<or> i = (k + 14) div 15 then \<not> placed \<and> s1 = s
      else placed \<and> dir_filled d s1 (Suc k) \<and> inode_segs s1 = inode_segs s)"
proof (induction "(k + 14) div 15 - i" arbitrary: i)
  case 0
  with dir_filledD(1)[OF F] show ?case
    by (simp add: add_entry_scan.simps[of d nm c i s])
next
  case (Suc m)
  let ?n = "(k + 14) div 15"
  note D = dir_filledD[OF F]
  from Suc(2) have i: "i < ?n" by simp
  with D(2) have ib: "i < MAX_DIRECT_BLOCKS" by (simp add: MAX_DIRECT_BLOCKS_def)
  from i have ik: "i * 15 < k" by arith
  from D(4)[OF i] obtain b where
    rb: "read_block (direct_blocks d i) s = Some (Some b)"
    and lb: "\<forall>j<15. (inode_num (entries_of_block b j) \<noteq> - 1) = (i * 15 + j < k)" by blast
  let ?es = "entries_of_block b"
  have ld: "load_directory_entries (direct_blocks d i) s = Some (Some ?es)"
    using rb by (simp add: load_directory_entries_def)
  show ?case
  proof (cases "find_free_entry ?es")
    case None
    from find_free_entry_None[OF None] lb have "i * 15 + 14 < k"
      by (simp add: DIR_ENTRIES_PER_BLOCK_15)
    then have nx: "k mod 15 \<noteq> 0 \<longrightarrow> Suc i \<noteq> ?n" by arith
    from Suc(4) i ib D(1) ld None
    have "add_entry_scan d nm c (Suc i) s = Some (placed, s1)"
      by (simp add: add_entry_scan.simps[of d nm c i s])
    from Suc(1)[OF _ _ this] Suc(2) i
    have "if k mod 15 = 0 \<or> Suc i = ?n then \<not> placed \<and> s1 = s
          else placed \<and> dir_filled d s1 (Suc k) \<and> inode_segs s1 = inode_segs s" by simp
    with nx i show ?thesis by (auto split: if_splits)
  next
    case (Some j)
    note fj = find_free_entry_Some[OF Some]
    from fj(1) have j15: "j < 15" by (simp add: DIR_ENTRIES_PER_BLOCK_15)
    from fj(2) lb j15 have nl: "\<not> i * 15 + j < k" by auto
    with ik have j0: "0 < j" by arith
    from fj(3) j0 have "inode_num (?es (j - 1)) \<noteq> - 1" by simp
    with lb j15 have "i * 15 + (j - 1) < k" by simp
    with nl j0 have kj: "k = i * 15 + j" by arith
    with j0 j15 have km: "k mod 15 \<noteq> 0" and ni: "?n = Suc i" and n1: "(Suc k + 14) div 15 = Suc i"
      by simp_all
    let ?new = "?es (j := \<lparr> name = strncpy_name nm, inode_num = c \<rparr>)"
    from Suc(4) i ib D(1) ld Some obtain rc where
      w: "write_block (direct_blocks d i) (block_of_entries ?new) s = Some (rc, s1)"
      and pl: "placed"
      by (auto simp: add_entry_scan.simps[of d nm c i s] save_directory_entries_def
          split: Option.bind_splits)
    note W = write_block_effect[OF w]
    from W(9) rb have rc: "rc = 0" by simp
    have "dir_filled d s1 (Suc k)"
    proof (rule dir_filledI)
      show "num_direct d = int ((Suc k + 14) div 15)" using D(1) ni n1 by simp
      show "(Suc k + 14) div 15 \<le> 1017" using D(2) ni n1 by simp
      fix i' assume "i' < (Suc k + 14) div 15"
      with n1 ni have i': "i' < ?n" "i' \<le> i" by simp_all
      show "block_allocated s1 (direct_blocks d i')" using D(3)[OF i'(1)] W(5) by simp
      show "\<exists>b. read_block (direct_blocks d i') s1 = Some (Some b)
          \<and> (\<forall>j<15. (inode_num (entries_of_block b j) \<noteq> - 1) = (i' * 15 + j < Suc k))"
      proof (cases "i' = i")
        case True
        have "(inode_num (entries_of_block (block_of_entries ?new) j') \<noteq> - 1)
                = (i * 15 + j' < Suc k)" if "j' < 15" for j'
        proof -
          from that have "entries_of_block (block_of_entries ?new) j' = ?new j'"
            by (intro entry_roundtrip_update c) (simp add: DIR_ENTRIES_PER_BLOCK_15)
          with lb[rule_format, OF that] c(1) kj show ?thesis by auto
        qed
        with W(3)[OF rc] True show ?thesis by simp
      next
        case False
        with i'(2) have lt: "i' < i" by simp
        from D(4)[OF i'(1)] obtain b' where
          rb': "read_block (direct_blocks d i') s = Some (Some b')"
          and lb': "\<forall>j<15. (inode_num (entries_of_block b' j) \<noteq> - 1) = (i' * 15 + j < k)"
          by blast
        have "direct_blocks d i' \<noteq> direct_blocks d i"
        proof
          assume "direct_blocks d i' = direct_blocks d i"
          with rb rb' have "b' = b" by simp
          with lb'[rule_format, OF j15] fj(2) have "\<not> i' * 15 + j < k" by simp
          with lt kj show False by arith
        qed
        from W(4)[OF this] rb' have "read_block (direct_blocks d i') s1 = Some (Some b')" by simp
        moreover have "(inode_num (entries_of_block b' j') \<noteq> - 1) = (i' * 15 + j' < Suc k)"
          if "j' < 15" for j'
        proof -
          from lt that kj have "i' * 15 + j' < k" by arith
          with lb'[rule_format, OF that] show ?thesis by simp
        qed
        ultimately show ?thesis by blast
      qed
    qed
    with pl km ni W(7) show ?thesis by simp
  qed
qed


lemma write_inode_data_segs:
  "write_inode n ino s = Some (rc, s') \<Longrightarrow> data_segs s' = data_segs s"
  by (auto simp: write_inode_def Let_def put_inode_seg_def split: if_splits option.splits)

lemma add_entry_filled_step:
  assumes F: "dir_filled d s k" and a: "add_entry_to_dir d dn nm c s = Some (0, d', s')"
    and c: "c \<noteq> - 1" "- (2 ^ 31) \<le> c" "c < 2 ^ 31"
  shows "dir_filled d' s' (Suc k)"
    "num_direct d' = (if k mod 15 = 0 then num_direct d + 1 else num_direct d)"
proof -
  let ?n = "(k + 14) div 15"
  note D = dir_filledD[OF F]
  from a obtain placed s1 where sc: "add_entry_scan d nm c 0 s = Some (placed, s1)"
    by (auto simp: add_entry_to_dir_def split: if_splits Option.bind_splits)
  have n0: "k mod 15 = 0 \<or> 0 = ?n \<longleftrightarrow> k mod 15 = 0" by arith
  from add_entry_scan_filled[OF F c _ sc] n0
  have R: "if k mod 15 = 0 then \<not> placed \<and> s1 = s
           else placed \<and> dir_filled d s1 (Suc k) \<and> inode_segs s1 = inode_segs s" by simp
  have "dir_filled d' s' (Suc k)
      \<and> num_direct d' = (if k mod 15 = 0 then num_direct d + 1 else num_direct d)"
  proof (cases "k mod 15 = 0")
    case False
    with R have "placed" "dir_filled d s1 (Suc k)" by simp_all
    with a sc False show ?thesis
      by (auto simp: add_entry_to_dir_def split: if_splits Option.bind_splits)
  next
    case True
    with R have np: "\<not> placed" "s1 = s" by simp_all
    from True have kn: "k = ?n * 15" "(Suc k + 14) div 15 = Suc ?n" by arith+
    from a sc np obtain nb s2 rc s3 rc' where
      lt: "num_direct d < int MAX_DIRECT_BLOCKS"
      and al: "allocate_block s = Some (nb, s2)" "nb \<noteq> - 1"
      and w: "write_block nb (block_of_entries (fresh_entries nm c)) s2 = Some (rc, s3)" "rc = 0"
      and d': "d' = d \<lparr> direct_blocks := (direct_blocks d) (nat (num_direct d) := nb),
                   num_direct := num_direct d + 1,
                   i_size := i_size d + word_of_nat BLOCK_SIZE \<rparr>"
      and wi: "write_inode dn d' s3 = Some (rc', s')"
      by (auto simp: add_entry_to_dir_def save_directory_entries_def Let_def
          split: if_splits Option.bind_splits)
    note A = allocate_block_effect[OF al]
    note W = write_block_effect[OF w(1)]
    note I = write_inode_data_segs[OF wi]
    have nd: "nat (num_direct d) = ?n" using D(1) by simp
    have "dir_filled d' s' (Suc k)"
    proof (rule dir_filledI)
      show "num_direct d' = int ((Suc k + 14) div 15)" using d' D(1) kn(2) by simp
      show "(Suc k + 14) div 15 \<le> 1017" using lt D(1) kn(2) by (simp add: MAX_DIRECT_BLOCKS_def)
      fix i assume "i < (Suc k + 14) div 15"
      with kn(2) have i: "i \<le> ?n" by simp
      show "block_allocated s' (direct_blocks d' i)"
      proof (cases "i = ?n")
        case True
        with d' nd have "direct_blocks d' i = nb" by simp
        with A(4) W(5) block_allocated_data_segs[OF I] show ?thesis by simp
      next
        case False
        with i have il: "i < ?n" by simp
        with d' nd have e: "direct_blocks d' i = direct_blocks d i" by simp
        from D(3)[OF il] A(3) have "direct_blocks d i \<noteq> nb" by auto
        from A(5)[OF this] D(3)[OF il] W(5) block_allocated_data_segs[OF I] e
        show ?thesis by simp
      qed
      show "\<exists>b. read_block (direct_blocks d' i) s' = Some (Some b)
          \<and> (\<forall>j<15. (inode_num (entries_of_block b j) \<noteq> - 1) = (i * 15 + j < Suc k))"
      proof (cases "i = ?n")
        case True
        with d' nd have e: "direct_blocks d' i = nb" by simp
        have "read_block nb s' = Some (Some (block_of_entries (fresh_entries nm c)))"
          using W(3)[OF w(2)] read_block_data_segs[OF I] by simp
        moreover have "(inode_num (entries_of_block (block_of_entries (fresh_entries nm c)) j) \<noteq> - 1)
                = (i * 15 + j < Suc k)" if "j < 15" for j
        proof -
          from that have "entries_of_block (block_of_entries (fresh_entries nm c)) j
                            = fresh_entries nm c j"
            by (intro fresh_entries_roundtrip c) (simp add: DIR_ENTRIES_PER_BLOCK_15)
          moreover have "(i * 15 + j < Suc k) = (j = 0)" using True kn(1) by arith
          ultimately show ?thesis using c(1) by (simp add: fresh_entries_def)
        qed
        ultimately show ?thesis using e by simp
      next
        case False
        with i have il: "i < ?n" by simp
        with d' nd have e: "direct_blocks d' i = direct_blocks d i" by simp
        from D(3)[OF il] A(3) have ne: "direct_blocks d i \<noteq> nb" by auto
        from D(4)[OF il] obtain b where
          rb: "read_block (direct_blocks d i) s = Some (Some b)"
          and lb: "\<forall>j<15. (inode_num (entries_of_block b j) \<noteq> - 1) = (i * 15 + j < k)"
          by blast
        from rb have "read_block (direct_blocks d i) s \<noteq> Some None" by simp
        from A(7)[OF this] W(4)[OF ne] read_block_data_segs[OF I] rb e
        have "read_block (direct_blocks d' i) s' = Some (Some b)" by simp
        moreover have "(inode_num (entries_of_block b j) \<noteq> - 1) = (i * 15 + j < Suc k)"
          if "j < 15" for j
        proof -
          from il that kn(1) have "i * 15 + j < k" by arith
          with lb[rule_format, OF that] show ?thesis by simp
        qed
        ultimately show ?thesis by blast
      qed
    qed
    with d' True show ?thesis by simp
  qed
  then show "dir_filled d' s' (Suc k)"
    "num_direct d' = (if k mod 15 = 0 then num_direct d + 1 else num_direct d)" by simp_all
qed


lemma full_entries_roundtrip:
  assumes "j < 15"
  shows "entries_of_block (block_of_entries full_entries) j = full_entries j"
  by (rule entries_of_block_of_entries)
     (use assms in \<open>simp_all add: DIR_ENTRIES_PER_BLOCK_15 full_entries_def strncpy_name_beyond\<close>)

lemma full_dir_block:
  "read_block 0 full_dir_fs = Some (Some (block_of_entries full_entries))"
  "block_allocated full_dir_fs 0"
  by (simp_all add: read_block_def block_allocated_def full_dir_fs_def data_seg_of_def
      seg_lookup_def blocks_per_segment_255 test_bit_bm_numeral_simps)

lemma full_dir_filled: "dir_filled one_file_root full_dir_fs 15"
proof (rule dir_filledI)
  show "num_direct one_file_root = int ((15 + 14) div 15)" by (simp add: one_file_root_def)
  show "(15 + 14) div 15 \<le> (1017 :: nat)" by simp
  fix i :: nat assume "i < (15 + 14) div 15"
  then have i: "i = 0" by simp
  have d0: "direct_blocks one_file_root 0 = 0"
    by (simp add: one_file_root_def root_inode_def zero_inode_def)
  show "block_allocated full_dir_fs (direct_blocks one_file_root i)"
    using i d0 full_dir_block(2) by simp
  have "(inode_num (entries_of_block (block_of_entries full_entries) j) \<noteq> - 1)
          = (i * 15 + j < 15)" if "j < 15" for j
    using that i full_entries_roundtrip[OF that] by (simp add: full_entries_def)
  with i d0 full_dir_block(1)
  show "\<exists>b. read_block (direct_blocks one_file_root i) full_dir_fs = Some (Some b)
          \<and> (\<forall>j<15. (inode_num (entries_of_block b j) \<noteq> - 1) = (i * 15 + j < 15))"
    by simp
qed

lemma full_dir_add:
  "\<exists>s'. add_entry_to_dir one_file_root 0 [98] 16 full_dir_fs
          = Some (0, one_file_root \<lparr> direct_blocks := (direct_blocks one_file_root) (1 := 1),
                                     num_direct := 2, i_size := 8192 \<rparr>, s')"
proof -
  let ?es = "entries_of_block (block_of_entries full_entries)"
  have d0: "direct_blocks one_file_root 0 = 0"
    by (simp add: one_file_root_def root_inode_def zero_inode_def)
  have ld: "load_directory_entries 0 full_dir_fs = Some (Some ?es)"
    using full_dir_block(1) by (simp add: load_directory_entries_def)
  have "\<not> strcmp_eq (name (?es j)) [98]" if "j < 15" for j
    using full_entries_roundtrip[OF that]
    by (simp add: strcmp_eq_def full_entries_def strncpy_name_def MAX_FILENAME_def)
  then have fi: "find_in_entries ?es [98] = None"
    by (auto simp: find_in_entries_def find_None_iff DIR_ENTRIES_PER_BLOCK_15)
  have "inode_num (?es j) \<noteq> - 1" if "j < 15" for j
    using full_entries_roundtrip[OF that] by (simp add: full_entries_def)
  then have fe: "find_free_entry ?es = None"
    by (auto simp: find_free_entry_def find_None_iff DIR_ENTRIES_PER_BLOCK_15)
  have f: "find_entry_in_dir one_file_root [98] full_dir_fs = Some (- 1)"
    using ld fi d0
    by (simp add: find_entry_in_dir_def find_entry_loop.simps[of _ _ 0]
        find_entry_loop.simps[of _ _ "Suc 0"] one_file_root_def root_inode_def
        c_string_def eval_consts)
  have sc: "add_entry_scan one_file_root [98] 16 0 full_dir_fs = Some (False, full_dir_fs)"
    using ld fe d0
    by (simp add: add_entry_scan.simps[of _ _ _ 0] add_entry_scan.simps[of _ _ _ "Suc 0"]
        one_file_root_def root_inode_def eval_consts)
  have al: "\<exists>s2. allocate_block full_dir_fs = Some (1, s2) \<and> read_block 1 s2 \<noteq> Some None
              \<and> inode_segs s2 = inode_segs full_dir_fs"
    by (simp add: full_dir_fs_def allocate_block_eval test_bit_bm_numeral_simps read_block_def
        data_seg_of_def seg_lookup_def blocks_per_segment_255)
  then obtain s2 where a2: "allocate_block full_dir_fs = Some (1, s2)"
    and r2: "read_block 1 s2 \<noteq> Some None" and i2: "inode_segs s2 = inode_segs full_dir_fs"
    by blast
  from write_block_allocated[OF r2, of "block_of_entries (fresh_entries [98] 16)"] obtain s3
    where w: "write_block 1 (block_of_entries (fresh_entries [98] 16)) s2 = Some (0, s3)" by auto
  from write_block_effect(7)[OF w] i2 have i3: "inode_segs s3 = inode_segs full_dir_fs" by simp
  have "\<exists>s'. write_inode 0 ino s3 = Some (0, s')" for ino
    using i3 by (simp add: write_inode_def Let_def inode_seg_of_def seg_lookup_def full_dir_fs_def)
  then obtain s' where wi: "write_inode 0
        (one_file_root \<lparr> direct_blocks := (direct_blocks one_file_root) (1 := 1),
                         num_direct := 2, i_size := 8192 \<rparr>) s3 = Some (0, s')" by blast
  have "add_entry_to_dir one_file_root 0 [98] 16 full_dir_fs
          = Some (0, one_file_root \<lparr> direct_blocks := (direct_blocks one_file_root) (1 := 1),
                                     num_direct := 2, i_size := 8192 \<rparr>, s')"
    using f sc a2 w wi
    by (simp add: add_entry_to_dir_def save_directory_entries_def one_file_root_def
        root_inode_def eval_consts Let_def)
  then show ?thesis by blast
qed


text \<open>
  C3 (counterexample). The first entry added to the empty root directory already allocates
  a direct block (\<^verbatim>\<open>-a /f\<close> on an empty host: the root inode goes from 0 to 1 direct blocks),
  and in a directory whose single block holds 15 live entries the 16th entry allocates the
  second block: long before the 256th entry.
\<close>

theorem sixteenth_entry_allocates_block:
  "map_option (num_direct_of ROOT_DIR_INODE \<circ> snd) (init_fs (empty_host 2)) = Some (Some 0)
   \<and> map_option (num_direct_of ROOT_DIR_INODE)
        (exfs2_main 0 (Add [47, 102] (Some [1])) (empty_host 2)) = Some (Some 1)
   \<and> num_direct one_file_root = 1
   \<and> map_option (num_direct \<circ> fst \<circ> snd)
        (add_entry_to_dir one_file_root 0 [98] 16 full_dir_fs) = Some 2"
proof -
  have "map_option (num_direct_of ROOT_DIR_INODE \<circ> snd) (init_fs (empty_host 2)) = Some (Some 0)"
    by (simp add: init_fs_empty_host num_direct_of_def fresh_fs_def eval_store eval_consts
        root_inode_def zero_inode_def)
  moreover have "map_option (num_direct_of ROOT_DIR_INODE)
        (exfs2_main 0 (Add [47, 102] (Some [1])) (empty_host 2)) = Some (Some 1)"
    by (simp add: exfs2_main_def init_fs_empty_host option.map_comp comp_def num_direct_of_def
      split_path_f fresh_fs_def eval_add eval_store eval_consts
      find_entry_loop.simps[of _ _ 0] add_entry_scan.simps[of _ _ _ 0])
  moreover have "num_direct one_file_root = 1" by (simp add: one_file_root_def)
  moreover from full_dir_add have "map_option (num_direct \<circ> fst \<circ> snd)
        (add_entry_to_dir one_file_root 0 [98] 16 full_dir_fs) = Some 2" by auto
  ultimately show ?thesis by blast
qed

text \<open>
  C3 (amended). A directory block holds \<open>\<lfloor>4096 / 260\<rfloor> = 15\<close> entries. In a directory that
  has only grown and holds \<open>k\<close> live entries, a successful \<^verbatim>\<open>add_entry_to_dir\<close> allocates a new
  direct block exactly when \<open>k\<close> is a multiple of 15 (the 1st, 16th, 31st, ... entry);
  otherwise it fills the first free slot of the last block. Either way the directory is
  then filled in order with \<open>k + 1\<close> entries.
\<close>

theorem add_entry_allocates_every_15th:
  assumes "dir_filled d s k" and "add_entry_to_dir d dn nm c s = Some (0, d', s')"
    and "c \<noteq> - 1" "- (2 ^ 31) \<le> c" "c < 2 ^ 31"
  shows "DIR_ENTRIES_PER_BLOCK = BLOCK_SIZE div sizeof_dir_entry_t \<and> DIR_ENTRIES_PER_BLOCK = 15
       \<and> num_direct d' = (if k mod DIR_ENTRIES_PER_BLOCK = 0 then num_direct d + 1
                           else num_direct d)
       \<and> dir_filled d' s' (Suc k)"
proof -
  have "DIR_ENTRIES_PER_BLOCK = BLOCK_SIZE div sizeof_dir_entry_t"
    by (simp add: DIR_ENTRIES_PER_BLOCK_def)
  with add_entry_filled_step[OF assms] show ?thesis
    by (simp add: DIR_ENTRIES_PER_BLOCK_15)
qed

theorem add_entry_allocates_every_15th_witness:
  "\<exists>d' s'. dir_filled one_file_root full_dir_fs 15
     \<and> add_entry_to_dir one_file_root 0 [98] 16 full_dir_fs = Some (0, d', s')
     \<and> num_direct d' = num_direct one_file_root + 1 \<and> dir_filled d' s' 16"
proof -
  from full_dir_add obtain d' s' where
    a: "add_entry_to_dir one_file_root 0 [98] 16 full_dir_fs = Some (0, d', s')" by blast
  from add_entry_allocates_every_15th[OF full_dir_filled a]
  have "num_direct d' = num_direct one_file_root + 1 \<and> dir_filled d' s' 16"
    by (simp add: DIR_ENTRIES_PER_BLOCK_15)
  with a full_dir_filled show ?thesis by blast
qed


end
